theory Spec2Isabelle
  imports Main "HOL-Library.Word" "HOL-Library.Finite_Map" "HOL-Library.Multiset"
    "HOL-Library.Char_ord" "HOL-Library.List_Lexorder" "HOL-Library.Product_Lexorder"
begin

section \<open>Bloaty: the attribution engine of bloaty.cc\<close>

text \<open>
  A shallow embedding of the range maps, the range sink, the rollup tree and the row
  collapser of \<^verbatim>\<open>src/bloaty.cc\<close> and \<^verbatim>\<open>src/bloaty.h\<close>.  Addresses and sizes are
  \<^verbatim>\<open>uint64_t\<close>, modelled as 64-bit words whose arithmetic wraps; the signed totals of a
  rollup are 64-bit words read with \<open>sint\<close>.  A thrown \<^verbatim>\<open>bloaty::Error\<close>, a failed
  \<^verbatim>\<open>assert\<close> and an access outside a container are values of the type \<open>error\<close>.
\<close>

subsection \<open>Errors\<close>

datatype error =
    Error string
  | AssertionFailed
  | InvalidIterator
  | IndexOutOfBounds

subsection \<open>RangeMap\<close>

text \<open>
  \<^verbatim>\<open>std::map<uint64_t, Entry> mappings_\<close> is the list of its elements in key order.  An
  iterator is the element it points to, \<open>None\<close> for \<^verbatim>\<open>end()\<close>: the map only ever grows,
  so an element, once inserted, is never changed, and \<^verbatim>\<open>++it\<close> is the first element of
  the current map whose key is greater.
\<close>

type_synonym uint64 = "64 word"

definition UINT64_MAX :: uint64 where
  "UINT64_MAX = 0xFFFFFFFFFFFFFFFF"

lemma UINT64_MAX_minus1: "UINT64_MAX = - 1"
  by (simp add: UINT64_MAX_def)

text \<open>\<^verbatim>\<open>struct Entry\<close>; the field \<^verbatim>\<open>end\<close> is \<open>entry_end\<close> here.  \<^verbatim>\<open>other_start\<close> is
  \<^verbatim>\<open>UINT64_MAX\<close> when the entry has no translation.\<close>

record entry =
  label :: string
  entry_end :: uint64
  other_start :: uint64

type_synonym range_map = "(uint64 \<times> entry) list"
type_synonym iter = "(uint64 \<times> entry) option"

definition HasTranslation :: "entry \<Rightarrow> bool" where
  "HasTranslation e = (other_start e \<noteq> UINT64_MAX)"

definition EntryContains :: "uint64 \<times> entry \<Rightarrow> uint64 \<Rightarrow> bool" where
  "EntryContains it addr = (addr \<ge> fst it \<and> addr < entry_end (snd it))"

text \<open>
  \<^verbatim>\<open>mappings_.upper_bound(addr)\<close>: the first element whose key is greater than \<open>addr\<close>.
\<close>

fun upper_bound :: "range_map \<Rightarrow> uint64 \<Rightarrow> iter" where
  "upper_bound [] addr = None"
| "upper_bound (x # m) addr = (if addr < fst x then Some x else upper_bound m addr)"

text \<open>
  \<^verbatim>\<open>it != mappings_.begin() && (--it, ...)\<close> for \<open>it = upper_bound(addr)\<close>: the last element
  whose key is at most \<open>addr\<close>, \<open>None\<close> when \<open>it\<close> is \<^verbatim>\<open>begin()\<close>.
\<close>

fun iter_prev :: "range_map \<Rightarrow> uint64 \<Rightarrow> iter" where
  "iter_prev [] addr = None"
| "iter_prev (x # m) addr =
     (if addr < fst x then None
      else (case iter_prev m addr of None \<Rightarrow> Some x | Some y \<Rightarrow> Some y))"

text \<open>\<^verbatim>\<open>++it\<close> in the current map.\<close>

definition iter_next :: "range_map \<Rightarrow> uint64 \<times> entry \<Rightarrow> iter" where
  "iter_next m x = upper_bound m (fst x)"

text \<open>
  \<^verbatim>\<open>mappings_.insert(hint, value)\<close>: the hint does not change the result; the value goes
  to its place in key order, and nothing happens when the key is present.
\<close>

fun map_insert :: "uint64 \<times> entry \<Rightarrow> range_map \<Rightarrow> range_map" where
  "map_insert x [] = [x]"
| "map_insert x (y # m) =
     (if fst x < fst y then x # y # m
      else if fst x = fst y then y # m
      else y # map_insert x m)"

definition FindContainingOrAfter :: "range_map \<Rightarrow> uint64 \<Rightarrow> iter" where
  "FindContainingOrAfter m addr =
     (let after = upper_bound m addr in
      case iter_prev m addr of
        None \<Rightarrow> after
      | Some x \<Rightarrow> if EntryContains x addr then Some x else after)"

definition FindContaining :: "range_map \<Rightarrow> uint64 \<Rightarrow> iter" where
  "FindContaining m addr =
     (case iter_prev m addr of
        None \<Rightarrow> None
      | Some x \<Rightarrow> if \<not> EntryContains x addr then None else Some x)"

text \<open>
  \<^verbatim>\<open>TranslateWithEntry\<close> asserts that the entry contains the address and has a
  translation; both its callers test exactly this before the call (lemma
  \<open>TranslateWithEntry_asserts\<close> below), so the assertions are not branches of the model.
\<close>

definition TranslateWithEntry :: "uint64 \<times> entry \<Rightarrow> uint64 \<Rightarrow> uint64" where
  "TranslateWithEntry it addr = addr - fst it + other_start (snd it)"

definition TranslateAndTrimRangeWithEntry ::
  "uint64 \<times> entry \<Rightarrow> uint64 \<Rightarrow> uint64 \<Rightarrow> (uint64 \<times> uint64) option" where
  "TranslateAndTrimRangeWithEntry it addr0 end0 =
     (let addr = max addr0 (fst it);
          end1 = min end0 (entry_end (snd it))
      in if addr \<ge> end1 \<or> \<not> HasTranslation (snd it) then None
         else Some (TranslateWithEntry it addr, end1 - addr))"

definition Translate :: "range_map \<Rightarrow> uint64 \<Rightarrow> uint64 option" where
  "Translate m addr =
     (case FindContaining m addr of
        None \<Rightarrow> None
      | Some x \<Rightarrow> if \<not> HasTranslation (snd x) then None else Some (TranslateWithEntry x addr))"

text \<open>
  The inner loop of \<^verbatim>\<open>AddDualRange\<close>:
  \<^verbatim>\<open>while (it != mappings_.end() && EntryContains(it, addr)) { addr = it->second.end; ++it; }\<close>
\<close>

function skip_covered :: "range_map \<Rightarrow> uint64 \<Rightarrow> iter \<Rightarrow> uint64 \<times> iter" where
  "skip_covered m addr None = (addr, None)"
| "skip_covered m addr (Some x) =
     (if EntryContains x addr then skip_covered m (entry_end (snd x)) (iter_next m x)
      else (addr, Some x))"
  by pat_completeness auto

definition iter_rank :: "range_map \<Rightarrow> iter \<Rightarrow> nat" where
  "iter_rank m it = (case it of None \<Rightarrow> 0 | Some x \<Rightarrow> Suc (length (filter (\<lambda>y. fst x < fst y) m)))"

lemma upper_bound_Some: "upper_bound m a = Some x \<Longrightarrow> x \<in> set m \<and> a < fst x"
  by (induction m) (auto split: if_splits)

lemma iter_rank_next: "iter_rank m (iter_next m x) < iter_rank m (Some x)"
proof (cases "iter_next m x")
  case None
  then show ?thesis by (simp add: iter_rank_def)
next
  case (Some y)
  then have y: "y \<in> set m" "fst x < fst y"
    using upper_bound_Some[of m "fst x" y] by (simp_all add: iter_next_def)
  let ?Q = "\<lambda>z. fst x < fst z" and ?P = "\<lambda>z. fst y < fst z"
  have "filter ?P m = filter ?P (filter ?Q m)"
    using y(2) by (auto intro!: filter_cong)
  moreover have "length (filter ?P (filter ?Q m)) < length (filter ?Q m)"
    by (rule length_filter_less[of y]) (use y in auto)
  ultimately show ?thesis using Some by (simp add: iter_rank_def)
qed

termination skip_covered
  by (relation "measure (\<lambda>(m, addr, it). iter_rank m it)") (simp_all add: iter_rank_next)

text \<open>
  The outer loop \<^verbatim>\<open>while (1)\<close> of \<^verbatim>\<open>AddDualRange\<close>.  On a map that violates the invariant
  of the class it need not stop, so the result is an option, \<open>None\<close> for a loop that
  does not return; that it returns on the maps of the program is proved below.
\<close>

partial_function (option) AddDualRange_loop ::
  "uint64 \<Rightarrow> uint64 \<Rightarrow> uint64 \<Rightarrow> string \<Rightarrow> uint64 \<Rightarrow> iter \<Rightarrow> range_map \<Rightarrow> range_map option" where
  "AddDualRange_loop base end0 otheraddr val addr0 it0 m =
     (case skip_covered m addr0 it0 of (addr, it) \<Rightarrow>
        if addr \<ge> end0 then Some m
        else
          let this_end =
                (case it of
                   None \<Rightarrow> end0
                 | Some x \<Rightarrow> if end0 > fst x then min end0 (fst x) else end0);
              other = (if otheraddr = UINT64_MAX then UINT64_MAX else addr - base + otheraddr)
          in AddDualRange_loop base end0 otheraddr val this_end it
               (map_insert (addr, \<lparr>label = val, entry_end = this_end, other_start = other\<rparr>) m))"

declare AddDualRange_loop.simps [code]

definition AddDualRange :: "range_map \<Rightarrow> uint64 \<Rightarrow> uint64 \<Rightarrow> uint64 \<Rightarrow> string \<Rightarrow> range_map option" where
  "AddDualRange m addr sz otheraddr val =
     (if sz = 0 then Some m
      else AddDualRange_loop addr (addr + sz) otheraddr val addr (FindContainingOrAfter m addr) m)"

definition AddRange :: "range_map \<Rightarrow> uint64 \<Rightarrow> uint64 \<Rightarrow> string \<Rightarrow> range_map option" where
  "AddRange m addr sz val = AddDualRange m addr sz UINT64_MAX val"

text \<open>
  The loop of \<^verbatim>\<open>AddRangeWithTranslation\<close> over the entries of the translator from \<open>it\<close> on,
  while \<^verbatim>\<open>it->first < end\<close>.
\<close>

function AddRangeWithTranslation_loop ::
  "range_map \<Rightarrow> uint64 \<Rightarrow> uint64 \<Rightarrow> string \<Rightarrow> iter \<Rightarrow> range_map \<Rightarrow> range_map option" where
  "AddRangeWithTranslation_loop translator addr end0 val None other = Some other"
| "AddRangeWithTranslation_loop translator addr end0 val (Some x) other =
     (if fst x < end0 then
        (case (case TranslateAndTrimRangeWithEntry x addr end0 of
                 None \<Rightarrow> Some other
               | Some (this_addr, this_size) \<Rightarrow> AddRange other this_addr this_size val) of
           None \<Rightarrow> None
         | Some other' \<Rightarrow>
             AddRangeWithTranslation_loop translator addr end0 val (iter_next translator x) other')
      else Some other)"
  by pat_completeness auto
termination
  by (relation "measure (\<lambda>(t, addr, end0, val, it, other). iter_rank t it)")
     (simp_all add: iter_rank_next)

definition AddRangeWithTranslation ::
  "range_map \<Rightarrow> uint64 \<Rightarrow> uint64 \<Rightarrow> string \<Rightarrow> range_map \<Rightarrow> range_map \<Rightarrow> (range_map \<times> range_map) option" where
  "AddRangeWithTranslation m addr sz val translator other =
     (case AddRange m addr sz val of
        None \<Rightarrow> None
      | Some m' \<Rightarrow>
          (case AddRangeWithTranslation_loop translator addr (addr + sz) val
                  (FindContainingOrAfter translator addr) other of
             None \<Rightarrow> None
           | Some other' \<Rightarrow> Some (m', other')))"




text \<open>
  The invariant of the class: the entries are non-empty and do not overlap, pairwise
  (\<open>wf_map\<close>), which for adjacent entries is \<open>NonOverlapping\<close>.  \<open>loop_inv\<close> is what the
  loops of \<^verbatim>\<open>AddDualRange\<close> keep true of the address and the iterator, and \<open>add_post\<close>
  what an insertion of \<open>[addr, end0)\<close> has done when it returns.
\<close>

definition wf_map :: "range_map \<Rightarrow> bool" where
  "wf_map m = (sorted_wrt (\<lambda>x y. entry_end (snd x) \<le> fst y) m \<and> list_all (\<lambda>x. fst x < entry_end (snd x)) m)"

fun NonOverlapping :: "range_map \<Rightarrow> bool" where
  "NonOverlapping [] = True"
| "NonOverlapping [x] = True"
| "NonOverlapping (x # y # m) = (entry_end (snd x) \<le> fst y \<and> NonOverlapping (y # m))"

definition before_iter :: "uint64 \<times> entry \<Rightarrow> iter \<Rightarrow> bool" where
  "before_iter z it = (case it of None \<Rightarrow> True | Some y \<Rightarrow> fst z < fst y)"

definition loop_inv :: "range_map \<Rightarrow> uint64 \<Rightarrow> iter \<Rightarrow> bool" where
  "loop_inv m addr it =
     ((\<forall>z\<in>set m. before_iter z it \<longrightarrow> entry_end (snd z) \<le> addr) \<and>
      (\<forall>y. it = Some y \<longrightarrow> y \<in> set m \<and> addr < entry_end (snd y)))"

definition covered :: "range_map \<Rightarrow> uint64 \<Rightarrow> bool" where
  "covered m a = (\<exists>x\<in>set m. EntryContains x a)"

definition add_post ::
  "range_map \<Rightarrow> uint64 \<Rightarrow> uint64 \<Rightarrow> uint64 \<Rightarrow> uint64 \<Rightarrow> string \<Rightarrow> range_map \<Rightarrow> bool" where
  "add_post m base addr end0 otheraddr val m' =
     (wf_map m' \<and> set m \<subseteq> set m' \<and>
      (\<forall>x\<in>set m' - set m.
         label (snd x) = val \<and>
         other_start (snd x) = (if otheraddr = UINT64_MAX then UINT64_MAX else fst x - base + otheraddr) \<and>
         addr \<le> fst x \<and> entry_end (snd x) \<le> end0 \<and>
         (entry_end (snd x) = end0 \<or> entry_end (snd x) \<in> fst ` set m)) \<and>
      (\<forall>a. addr \<le> a \<and> a < end0 \<longrightarrow> covered m' a))"

text \<open>
  The range maps a program can hold: the empty map, and whatever the three mutating
  operations return.  \<^verbatim>\<open>AddRangeWithTranslation\<close> changes two maps, the receiver and
  \<open>other\<close>; at every call site they and the translator are distinct objects.
\<close>

inductive reachable :: "range_map \<Rightarrow> bool" where
  reachable_empty: "reachable []"
| reachable_AddRange:
    "reachable m \<Longrightarrow> AddRange m addr sz val = Some m' \<Longrightarrow> reachable m'"
| reachable_AddDualRange:
    "reachable m \<Longrightarrow> AddDualRange m addr sz otheraddr val = Some m' \<Longrightarrow> reachable m'"
| reachable_AddRangeWithTranslation_self:
    "reachable m \<Longrightarrow> reachable translator \<Longrightarrow> reachable other \<Longrightarrow>
     AddRangeWithTranslation m addr sz val translator other = Some (m', other') \<Longrightarrow> reachable m'"
| reachable_AddRangeWithTranslation_other:
    "reachable m \<Longrightarrow> reachable translator \<Longrightarrow> reachable other \<Longrightarrow>
     AddRangeWithTranslation m addr sz val translator other = Some (m', other') \<Longrightarrow> reachable other'"

subsection \<open>DualMap, NameMunger and RangeSink\<close>

record dual_map =
  vm_map :: range_map
  file_map :: range_map

text \<open>
  A \<^verbatim>\<open>NameMunger\<close> holds pairs of a compiled regular expression and a replacement.
  \<^verbatim>\<open>RE2::Extract\<close> belongs to a library outside the repository: each pair is the partial
  function it computes, \<open>None\<close> where the expression does not match.
\<close>

type_synonym name_munger = "(string \<Rightarrow> string option) list"

fun Munge_regexes :: "name_munger \<Rightarrow> string \<Rightarrow> string" where
  "Munge_regexes [] name = name"
| "Munge_regexes (re # regexes) name =
     (case re name of Some ret \<Rightarrow> ret | None \<Rightarrow> Munge_regexes regexes name)"

definition Munge :: "name_munger \<Rightarrow> string \<Rightarrow> string" where
  "Munge regexes name =
     (if name \<noteq> [] \<and> hd name = CHR ''['' then name else Munge_regexes regexes name)"

text \<open>
  The sink refers to its output maps through pointers and mutates them in place; the
  model keeps the maps in the sink and returns the sink with the maps updated.  The
  input file and the data source of a sink are only printed.
\<close>

record range_sink =
  sink_translator :: "dual_map option"
  sink_outputs :: "(dual_map \<times> name_munger) list"

fun AddFileRange_outputs ::
  "dual_map option \<Rightarrow> string \<Rightarrow> uint64 \<Rightarrow> uint64 \<Rightarrow> (dual_map \<times> name_munger) list \<Rightarrow>
   (dual_map \<times> name_munger) list option" where
  "AddFileRange_outputs tr name fileoff filesize [] = Some []"
| "AddFileRange_outputs tr name fileoff filesize (pair # rest) =
     (let label = Munge (snd pair) name in
      case (case tr of
              Some t \<Rightarrow>
                (case AddRangeWithTranslation (file_map (fst pair)) fileoff filesize label
                        (file_map t) (vm_map (fst pair)) of
                   None \<Rightarrow> None
                 | Some (f', v') \<Rightarrow> Some (\<lparr>vm_map = v', file_map = f'\<rparr>, snd pair))
            | None \<Rightarrow> Some pair) of
        None \<Rightarrow> None
      | Some pair' \<Rightarrow>
          (case AddFileRange_outputs tr name fileoff filesize rest of
             None \<Rightarrow> None
           | Some rest' \<Rightarrow> Some (pair' # rest')))"

definition AddFileRange :: "range_sink \<Rightarrow> string \<Rightarrow> uint64 \<Rightarrow> uint64 \<Rightarrow> range_sink option" where
  "AddFileRange sink name fileoff filesize =
     (case AddFileRange_outputs (sink_translator sink) name fileoff filesize (sink_outputs sink) of
        None \<Rightarrow> None
      | Some outs \<Rightarrow> Some (sink\<lparr>sink_outputs := outs\<rparr>))"

text \<open>\<^verbatim>\<open>RangeSink::AddRange\<close>, the sibling of \<^verbatim>\<open>AddFileRange\<close> that never reads the translator.\<close>

fun Sink_AddRange_outputs ::
  "string \<Rightarrow> uint64 \<Rightarrow> uint64 \<Rightarrow> uint64 \<Rightarrow> uint64 \<Rightarrow> (dual_map \<times> name_munger) list \<Rightarrow>
   (dual_map \<times> name_munger) list option" where
  "Sink_AddRange_outputs name vmaddr vmsize fileoff filesize [] = Some []"
| "Sink_AddRange_outputs name vmaddr vmsize fileoff filesize (pair # rest) =
     (let label = Munge (snd pair) name;
          common = min vmsize filesize
      in case AddDualRange (vm_map (fst pair)) vmaddr common fileoff label of
           None \<Rightarrow> None
         | Some v1 \<Rightarrow>
        (case AddDualRange (file_map (fst pair)) fileoff common vmaddr label of
           None \<Rightarrow> None
         | Some f1 \<Rightarrow>
        (case AddRange v1 (vmaddr + common) (vmsize - common) label of
           None \<Rightarrow> None
         | Some v2 \<Rightarrow>
        (case AddRange f1 (fileoff + common) (filesize - common) label of
           None \<Rightarrow> None
         | Some f2 \<Rightarrow>
        (case Sink_AddRange_outputs name vmaddr vmsize fileoff filesize rest of
           None \<Rightarrow> None
         | Some rest' \<Rightarrow> Some ((\<lparr>vm_map = v2, file_map = f2\<rparr>, snd pair) # rest'))))))"

definition Sink_AddRange ::
  "range_sink \<Rightarrow> string \<Rightarrow> uint64 \<Rightarrow> uint64 \<Rightarrow> uint64 \<Rightarrow> uint64 \<Rightarrow> range_sink option" where
  "Sink_AddRange sink name vmaddr vmsize fileoff filesize =
     (case Sink_AddRange_outputs name vmaddr vmsize fileoff filesize (sink_outputs sink) of
        None \<Rightarrow> None
      | Some outs \<Rightarrow> Some (sink\<lparr>sink_outputs := outs\<rparr>))"

subsection \<open>RangeMap::ComputeRollup\<close>

text \<open>
  \<^verbatim>\<open>UINTPTR_MAX\<close> on the 64-bit targets the program is built for.
\<close>

definition UINTPTR_MAX :: uint64 where
  "UINTPTR_MAX = UINT64_MAX"

definition RangeEnd :: "uint64 \<times> entry \<Rightarrow> uint64" where
  "RangeEnd x = entry_end (snd x)"

definition map_begin :: "range_map \<Rightarrow> iter" where
  "map_begin m = (case m of [] \<Rightarrow> None | x # _ \<Rightarrow> Some x)"

text \<open>
  The first loop: one iterator per map, at \<^verbatim>\<open>begin()\<close>, and the least first key.
  \<^verbatim>\<open>iters.back()->first\<close> dereferences \<^verbatim>\<open>begin()\<close>, which for an empty map is \<^verbatim>\<open>end()\<close>.
  Each iterator of the vector \<^verbatim>\<open>iters\<close> is kept together with the map it walks.
\<close>

fun ComputeRollup_init ::
  "range_map list \<Rightarrow> (range_map \<times> iter) list \<Rightarrow> uint64 \<Rightarrow> error + (range_map \<times> iter) list \<times> uint64" where
  "ComputeRollup_init [] iters current = Inr (iters, current)"
| "ComputeRollup_init (range_map # rest) iters current =
     (case map_begin range_map of
        None \<Rightarrow> Inl InvalidIterator
      | Some x \<Rightarrow> ComputeRollup_init rest (iters @ [(range_map, Some x)]) (min current (fst x)))"

text \<open>\<^verbatim>\<open>while (!IterIsEnd(iter) && RangeEnd(iter) <= current) ++iter;\<close>\<close>

function advance :: "range_map \<Rightarrow> uint64 \<Rightarrow> iter \<Rightarrow> iter" where
  "advance m current None = None"
| "advance m current (Some x) =
     (if RangeEnd x \<le> current then advance m current (iter_next m x) else Some x)"
  by pat_completeness auto
termination
  by (relation "measure (\<lambda>(m, current, it). iter_rank m it)") (simp_all add: iter_rank_next)

text \<open>
  The \<^verbatim>\<open>for\<close> loop over the iterators, from index \<open>i\<close> on: it advances each iterator,
  pushes one key per map (and the file name at its position) and lowers
  \<^verbatim>\<open>next_break\<close>.
\<close>

fun ComputeRollup_for ::
  "string \<Rightarrow> int \<Rightarrow> uint64 \<Rightarrow> nat \<Rightarrow> (range_map \<times> iter) list \<Rightarrow> string list \<Rightarrow> uint64 \<Rightarrow> bool \<Rightarrow>
   (range_map \<times> iter) list \<times> string list \<times> uint64 \<times> bool" where
  "ComputeRollup_for filename filename_position current i [] keys next_break have_data =
     ([],
      (if filename_position \<ge> 0 \<and> nat filename_position = i then keys @ [filename] else keys),
      next_break, have_data)"
| "ComputeRollup_for filename filename_position current i ((m, it) # rest) keys next_break have_data =
     (let keys1 = (if filename_position \<ge> 0 \<and> nat filename_position = i
                   then keys @ [filename] else keys);
          iter = advance m current it
      in case (case iter of
                 None \<Rightarrow> (keys1 @ [''[None]''], next_break, have_data)
               | Some x \<Rightarrow>
                   if fst x > current
                   then (keys1 @ [''[None]''], min next_break (fst x), have_data)
                   else (keys1 @ [label (snd x)], min next_break (RangeEnd x), True)) of
           (keys2, next_break2, have_data2) \<Rightarrow>
             (case ComputeRollup_for filename filename_position current (i + 1) rest
                     keys2 next_break2 have_data2 of
                (iters', r) \<Rightarrow> ((m, iter) # iters', r)))"

text \<open>Every round of the main loop moves \<^verbatim>\<open>current\<close> up, or stops.\<close>

lemma advance_bound: "advance m c it = Some x \<Longrightarrow> c < RangeEnd x"
  by (induction m c it rule: advance.induct) (auto split: if_splits)

lemma ComputeRollup_for_break:
  "ComputeRollup_for fn pos c i ps keys nb0 have_data0 = (ps', keys', nb, have_data) \<Longrightarrow>
   nb0 = UINTPTR_MAX \<or> c < nb0 \<Longrightarrow> nb = UINTPTR_MAX \<or> c < nb"
proof (induction ps arbitrary: i keys nb0 have_data0 ps' keys' nb have_data)
  case Nil
  then show ?case by simp
next
  case (Cons p ps)
  obtain m it where p: "p = (m, it)" by (cases p)
  show ?case
  proof (cases "advance m c it")
    case None
    with Cons.prems p show ?thesis
      by (auto simp: Let_def split: prod.splits dest: Cons.IH)
  next
    case (Some x)
    from advance_bound[OF Some] have b: "c < RangeEnd x" .
    show ?thesis
    proof (cases "fst x > c")
      case True
      with Cons.prems p Some show ?thesis
        by (auto simp: Let_def min_def split: prod.splits dest!: Cons.IH)
    next
      case False
      with Cons.prems p Some b show ?thesis
        by (auto simp: Let_def min_def split: prod.splits dest!: Cons.IH)
    qed
  qed
qed

text \<open>
  The main loop.  The result is the list of the calls \<^verbatim>\<open>func(keys, current, next_break)\<close>,
  in the order they are made.
\<close>

function ComputeRollup_loop ::
  "string \<Rightarrow> int \<Rightarrow> uint64 \<Rightarrow> (range_map \<times> iter) list \<Rightarrow> (string list \<times> uint64 \<times> uint64) list" where
  "ComputeRollup_loop filename filename_position current iters =
     (case ComputeRollup_for filename filename_position current 0 iters [] UINTPTR_MAX False of
        (iters', keys, next_break, have_data) \<Rightarrow>
          if next_break = UINTPTR_MAX then []
          else (if have_data then [(keys, current, next_break)] else []) @
               ComputeRollup_loop filename filename_position next_break iters')"
  by pat_completeness auto
termination
proof (relation "measure (\<lambda>(filename, filename_position, current, iters). unat (UINTPTR_MAX - current))")
  show "wf (measure (\<lambda>(filename, filename_position, current, iters). unat (UINTPTR_MAX - current)))"
    by simp
next
  fix filename :: string and filename_position :: int and current :: uint64
    and iters x y :: "(range_map \<times> iter) list" and xa :: "string list \<times> uint64 \<times> bool"
    and xb :: "string list" and ya :: "uint64 \<times> bool" and xc :: uint64 and yb :: bool
  assume r: "(x, xa) = ComputeRollup_for filename filename_position current 0 iters [] UINTPTR_MAX False"
    "(xb, ya) = xa" "(xc, yb) = ya" and ne: "xc \<noteq> UINTPTR_MAX"
  from r have "ComputeRollup_for filename filename_position current 0 iters [] UINTPTR_MAX False
      = (x, xb, xc, yb)" by simp
  from ComputeRollup_for_break[OF this] ne have lt: "current < xc" by simp
  have le: "xc \<le> UINTPTR_MAX" by (simp add: UINTPTR_MAX_def UINT64_MAX_minus1)
  from lt le have "unat (UINTPTR_MAX - xc) < unat (UINTPTR_MAX - current)"
    by (simp add: word_less_nat_alt word_le_nat_alt unat_sub)
  then show "((filename, filename_position, xc, x), filename, filename_position, current, iters)
    \<in> measure (\<lambda>(filename, filename_position, current, iters). unat (UINTPTR_MAX - current))"
    by simp
qed

declare ComputeRollup_loop.simps [simp del]

definition ComputeRollup ::
  "range_map list \<Rightarrow> string \<Rightarrow> int \<Rightarrow> error + (string list \<times> uint64 \<times> uint64) list" where
  "ComputeRollup range_maps filename filename_position =
     (if \<not> length range_maps > 0 then Inl AssertionFailed
      else case ComputeRollup_init range_maps [] UINTPTR_MAX of
             Inl e \<Rightarrow> Inl e
           | Inr (iters, current) \<Rightarrow>
               if \<not> current \<noteq> UINTPTR_MAX then Inl AssertionFailed
               else Inr (ComputeRollup_loop filename filename_position current iters))"

text \<open>
  \<open>iter_ok\<close> is what holds of an iterator of \<^verbatim>\<open>ComputeRollup\<close> before it is advanced;
  \<open>calls_union\<close> is the set of addresses in the intervals passed to the callback.
\<close>

definition iter_ok :: "range_map \<Rightarrow> uint64 \<Rightarrow> iter \<Rightarrow> bool" where
  "iter_ok m c it =
     ((\<forall>z\<in>set m. before_iter z it \<longrightarrow> entry_end (snd z) \<le> c) \<and> (\<forall>y. it = Some y \<longrightarrow> y \<in> set m))"

definition calls_union :: "(string list \<times> uint64 \<times> uint64) list \<Rightarrow> uint64 set" where
  "calls_union calls = (\<Union>(keys, cur, nxt)\<in>set calls. {cur..<nxt})"

text \<open>
  The key tuple as the specification words it: for each map the label of the entry that
  contains the address, \<open>[None]\<close> where the map has none, and the file name inserted at
  \<^verbatim>\<open>filename_position\<close>.
\<close>

definition key_at :: "range_map \<Rightarrow> uint64 \<Rightarrow> string" where
  "key_at m a = (case FindContaining m a of None \<Rightarrow> ''[None]'' | Some x \<Rightarrow> label (snd x))"

definition keys_with_filename :: "string \<Rightarrow> int \<Rightarrow> string list \<Rightarrow> string list" where
  "keys_with_filename fname fpos ks =
     (if 0 \<le> fpos \<and> nat fpos \<le> length ks
      then take (nat fpos) ks @ [fname] @ drop (nat fpos) ks
      else ks)"

definition key_of_iter :: "uint64 \<Rightarrow> iter \<Rightarrow> string" where
  "key_of_iter c it =
     (case it of None \<Rightarrow> ''[None]'' | Some x \<Rightarrow> if fst x > c then ''[None]'' else label (snd x))"

fun keys_from :: "string \<Rightarrow> int \<Rightarrow> nat \<Rightarrow> string list \<Rightarrow> string list" where
  "keys_from fname fpos i [] = (if fpos \<ge> 0 \<and> nat fpos = i then [fname] else [])"
| "keys_from fname fpos i (k # ks) =
     (if fpos \<ge> 0 \<and> nat fpos = i then [fname] else []) @ k # keys_from fname fpos (Suc i) ks"

subsection \<open>Rollup\<close>

text \<open>
  \<^verbatim>\<open>CheckedAdd\<close>, in the branch that uses \<^verbatim>\<open>__builtin_add_overflow\<close>: the builtin adds its
  two operands as unbounded integers and reports whether the sum fits the accumulator,
  an \<^verbatim>\<open>int64_t\<close>.  The second operand is given by its value: \<open>uint\<close> of a \<^verbatim>\<open>uint64_t\<close>,
  \<open>sint\<close> of an \<^verbatim>\<open>int64_t\<close>.
\<close>

type_synonym int64 = "64 word"

definition CheckedAdd :: "int64 \<Rightarrow> int \<Rightarrow> error + int64" where
  "CheckedAdd accum val =
     (let s = sint accum + val
      in if - (2 ^ 63) \<le> s \<and> s < 2 ^ 63 then Inr (word_of_int s)
         else Inl (Error ''integer overflow''))"

text \<open>
  \<^verbatim>\<open>children_\<close> is an unordered map from names to owned sub-rollups: a finite map.
\<close>

datatype rollup =
  Rollup (vm_total: int64) (file_total: int64) (children: "(string, rollup) fmap")

definition new_Rollup :: rollup where
  "new_Rollup = Rollup 0 0 fmempty"

text \<open>
  \<^verbatim>\<open>auto& child = children_[name]; if (child.get() == nullptr) child.reset(new Rollup());\<close>
\<close>

definition child_or_new :: "rollup \<Rightarrow> string \<Rightarrow> rollup" where
  "child_or_new r name = (case fmlookup (children r) name of None \<Rightarrow> new_Rollup | Some child \<Rightarrow> child)"

function AddInternal :: "string list \<Rightarrow> nat \<Rightarrow> uint64 \<Rightarrow> bool \<Rightarrow> rollup \<Rightarrow> error + rollup" where
  "AddInternal names i sz is_vmsize r =
     (case (if is_vmsize then CheckedAdd (vm_total r) (uint sz)
            else CheckedAdd (file_total r) (uint sz)) of
        Inl e \<Rightarrow> Inl e
      | Inr new_total \<Rightarrow>
          (let vm = (if is_vmsize then new_total else vm_total r);
               file = (if is_vmsize then file_total r else new_total)
           in if i < length names then
                (case AddInternal names (i + 1) sz is_vmsize (child_or_new r (names ! i)) of
                   Inl e \<Rightarrow> Inl e
                 | Inr child \<Rightarrow> Inr (Rollup vm file (fmupd (names ! i) child (children r))))
              else Inr (Rollup vm file (children r))))"
  by pat_completeness auto
termination
  by (relation "measure (\<lambda>(names, i, sz, is_vmsize, r). length names - i)") auto

declare AddInternal.simps [simp del]

definition AddSizes :: "string list \<Rightarrow> uint64 \<Rightarrow> bool \<Rightarrow> rollup \<Rightarrow> error + rollup" where
  "AddSizes names sz is_vmsize r = AddInternal names 1 sz is_vmsize r"

text \<open>
  \<^verbatim>\<open>Subtract\<close> recurses over the children of \<open>other\<close>.  The subtraction of the totals is
  unchecked in the source; on the two's complement targets it wraps.
\<close>

primrec Subtract_other :: "rollup \<Rightarrow> rollup \<Rightarrow> rollup" where
  "Subtract_other (Rollup other_vm other_file other_children) =
     (\<lambda>this. Rollup (vm_total this - other_vm) (file_total this - other_file)
        (children this ++\<^sub>f
           fmmap_keys (\<lambda>name sub. sub (child_or_new this name))
             (fmmap Subtract_other other_children)))"

definition Subtract :: "rollup \<Rightarrow> rollup \<Rightarrow> rollup" where
  "Subtract this other = Subtract_other other this"

text \<open>A sequence of \<^verbatim>\<open>AddSizes\<close> calls; the first overflow ends it.\<close>

fun AddSizes_all :: "(string list \<times> uint64 \<times> bool) list \<Rightarrow> rollup \<Rightarrow> error + rollup" where
  "AddSizes_all [] r = Inr r"
| "AddSizes_all ((names, sz, is_vmsize) # calls) r =
     (case AddSizes names sz is_vmsize r of
        Inl e \<Rightarrow> Inl e
      | Inr r' \<Rightarrow> AddSizes_all calls r')"

text \<open>
  The walk as the specification words it: add at this node, then descend into the child
  keyed by the first label and continue with the remaining labels.
\<close>

fun add_sizes_spec :: "string list \<Rightarrow> uint64 \<Rightarrow> bool \<Rightarrow> rollup \<Rightarrow> error + rollup" where
  "add_sizes_spec labels sz is_vm r =
     (case (if is_vm then CheckedAdd (vm_total r) (uint sz)
            else CheckedAdd (file_total r) (uint sz)) of
        Inl e \<Rightarrow> Inl e
      | Inr new_total \<Rightarrow>
          (let vm = (if is_vm then new_total else vm_total r);
               file = (if is_vm then file_total r else new_total)
           in case labels of
                [] \<Rightarrow> Inr (Rollup vm file (children r))
              | l # rest \<Rightarrow>
                  (case add_sizes_spec rest sz is_vm (child_or_new r l) of
                     Inl e \<Rightarrow> Inl e
                   | Inr child \<Rightarrow> Inr (Rollup vm file (fmupd l child (children r))))))"

declare add_sizes_spec.simps [simp del]

text \<open>
  The node-wise sum of the subtract law: \<open>node_sum a b c\<close> holds when \<open>a\<close>, \<open>b\<close> and \<open>c\<close>
  have the same children at every node and every total of \<open>a\<close> is the sum of the totals
  of \<open>b\<close> and \<open>c\<close> at that node.
\<close>

primrec node_sum :: "rollup \<Rightarrow> rollup \<Rightarrow> rollup \<Rightarrow> bool" where
  "node_sum (Rollup a_vm a_file a_children) =
     (\<lambda>b c. a_vm = vm_total b + vm_total c \<and> a_file = file_total b + file_total c \<and>
            fmdom (children b) = fmdom a_children \<and> fmdom (children c) = fmdom a_children \<and>
            fmpred (\<lambda>name sum_of.
                      case (fmlookup (children b) name, fmlookup (children c) name) of
                        (Some b', Some c') \<Rightarrow> sum_of b' c'
                      | _ \<Rightarrow> False)
              (fmmap node_sum a_children))"

text \<open>\<^verbatim>\<open>AddInternal\<close> without the overflow check, for the proof that the calls commute.\<close>

function AddInternal_wrap :: "string list \<Rightarrow> nat \<Rightarrow> uint64 \<Rightarrow> bool \<Rightarrow> rollup \<Rightarrow> rollup" where
  "AddInternal_wrap names i sz is_vmsize r =
     Rollup (if is_vmsize then vm_total r + sz else vm_total r)
            (if is_vmsize then file_total r else file_total r + sz)
            (if i < length names
             then fmupd (names ! i) (AddInternal_wrap names (i + 1) sz is_vmsize (child_or_new r (names ! i)))
                    (children r)
             else children r)"
  by pat_completeness auto
termination
  by (relation "measure (\<lambda>(names, i, sz, is_vmsize, r). length names - i)") auto

declare AddInternal_wrap.simps [simp del]

subsection \<open>Options and BloatyDoMain\<close>

text \<open>
  \<^verbatim>\<open>Options\<close> is the protocol-buffer message of \<^verbatim>\<open>bloaty.pb.h\<close>, which is generated and not
  part of the sources; the record has the fields that \<^verbatim>\<open>bloaty.cc\<close> reads.
  \<^verbatim>\<open>max_rows_per_level\<close> is an \<^verbatim>\<open>int64\<close>.
\<close>

datatype sort_by = SORTBY_VMSIZE | SORTBY_FILESIZE | SORTBY_BOTH

record options =
  filename :: "string list"
  base_filename :: "string list"
  data_source :: "string list"
  max_rows_per_level :: "64 word"
  sort_by :: sort_by
  verbose_level :: int

text \<open>
  The option \<^verbatim>\<open>-n <num>\<close> of \<^verbatim>\<open>DoParseOptions\<close> stores the number it reads with
  \<^verbatim>\<open>set_max_rows_per_level\<close>.
\<close>

definition set_max_rows_per_level :: "64 word \<Rightarrow> options \<Rightarrow> options" where
  "set_max_rows_per_level n opts = opts\<lparr>max_rows_per_level := n\<rparr>"

text \<open>
  \<^verbatim>\<open>BloatyDoMain\<close> checks the options, then opens the files, registers the data sources and
  scans.  Everything after the two checks is the parameter \<open>scan\<close>.
\<close>

definition BloatyDoMain :: "options \<Rightarrow> (options \<Rightarrow> error + 'a) \<Rightarrow> error + 'a" where
  "BloatyDoMain opts scan =
     (if length (filename opts) = 0 then Inl (Error ''must specify at least one file'')
      else if sint (max_rows_per_level opts) < 1 then
        Inl (Error ''max_rows_per_level must be at least 1'')
      else scan opts)"

subsection \<open>Rollup::ComputeRows\<close>

text \<open>
  A \<^verbatim>\<open>RollupRow\<close> with the fields that the collapse reads and writes.  The percentages
  are doubles, and the three vectors of child rows are filled afterwards by the
  recursive \<^verbatim>\<open>CreateRows\<close>; the collapse touches neither.
\<close>

record rollup_row =
  name :: string
  vmsize :: int64
  filesize :: int64

definition others_label :: string where
  "others_label = ''[Other]''"

definition INT64_MAX :: int where
  "INT64_MAX = 2 ^ 63 - 1"

text \<open>
  The two ranking lambdas.  Tuples compare lexicographically, \<^verbatim>\<open>false < true\<close>, and
  \<^verbatim>\<open>std::string\<close> compares bytes lexicographically.  The ranks are computed on the values
  of the \<^verbatim>\<open>int64_t\<close> fields; \<^verbatim>\<open>std::abs\<close> of the least \<^verbatim>\<open>int64_t\<close> is undefined in the source.
\<close>

definition rank :: "options \<Rightarrow> rollup_row \<Rightarrow> int \<times> string" where
  "rank opts row =
     (let val_to_rank =
            (case sort_by opts of
               SORTBY_VMSIZE \<Rightarrow> \<bar>sint (vmsize row)\<bar>
             | SORTBY_FILESIZE \<Rightarrow> \<bar>sint (filesize row)\<bar>
             | SORTBY_BOTH \<Rightarrow> max \<bar>sint (vmsize row)\<bar> \<bar>sint (filesize row)\<bar>);
          numeric_rank = INT64_MAX - val_to_rank
      in (numeric_rank, name row))"

definition collapse_rank :: "options \<Rightarrow> rollup_row \<Rightarrow> bool \<times> int \<times> string" where
  "collapse_rank opts row = (let top_name = (name row \<noteq> ''[None]'') in (top_name, rank opts row))"

text \<open>The two tests at the head of \<^verbatim>\<open>ComputeRows\<close> that clear a single row.\<close>

definition ComputeRows_clear :: "bool \<Rightarrow> string \<Rightarrow> rollup_row list \<Rightarrow> rollup_row list" where
  "ComputeRows_clear is_toplevel row_name child_rows =
     (let child_rows1 =
            (if \<not> is_toplevel \<and> length child_rows = 1 \<and>
                (name (child_rows ! 0) = ''[None]'' \<or> name (child_rows ! 0) = ''[Unmapped]'')
             then [] else child_rows)
      in if length child_rows1 = 1 \<and> name (child_rows1 ! 0) = row_name then [] else child_rows1)"

text \<open>
  The loop that moves rows into \<^verbatim>\<open>others_row\<close>.  \<open>i\<close> is a \<^verbatim>\<open>size_t\<close>, and the comparison
  \<^verbatim>\<open>i >= options.max_rows_per_level()\<close> converts the \<^verbatim>\<open>int64\<close> to unsigned: both are 64-bit
  words compared as unsigned numbers, and \<^verbatim>\<open>i--\<close> wraps at 0.  \<^verbatim>\<open>child_rows[i]\<close> outside the
  vector is an error of the model.
\<close>

function ComputeRows_filter ::
  "64 word \<Rightarrow> rollup option \<Rightarrow> 64 word \<Rightarrow> rollup_row list \<Rightarrow> rollup_row \<Rightarrow> rollup \<Rightarrow>
   error + rollup_row list \<times> rollup_row \<times> rollup" where
  "ComputeRows_filter max_rows base i child_rows others_row others_base =
     (if i \<ge> max_rows then
        if unat i < length child_rows then
          (case CheckedAdd (vmsize others_row) (sint (vmsize (child_rows ! unat i))) of
             Inl e \<Rightarrow> Inl e
           | Inr vm \<Rightarrow>
          (case CheckedAdd (filesize others_row) (sint (filesize (child_rows ! unat i))) of
             Inl e \<Rightarrow> Inl e
           | Inr file \<Rightarrow>
          (case (case base of
                   None \<Rightarrow> Inr others_base
                 | Some b \<Rightarrow>
                     (case fmlookup (children b) (name (child_rows ! unat i)) of
                        None \<Rightarrow> Inr others_base
                      | Some it \<Rightarrow>
                          (case CheckedAdd (vm_total others_base) (sint (vm_total it)) of
                             Inl e \<Rightarrow> Inl e
                           | Inr bvm \<Rightarrow>
                          (case CheckedAdd (file_total others_base) (sint (file_total it)) of
                             Inl e \<Rightarrow> Inl e
                           | Inr bfile \<Rightarrow> Inr (Rollup bvm bfile (children others_base)))))) of
             Inl e \<Rightarrow> Inl e
           | Inr others_base' \<Rightarrow>
               ComputeRows_filter max_rows base (i - 1) (butlast child_rows)
                 (others_row\<lparr>vmsize := vm, filesize := file\<rparr>) others_base')))
        else Inl IndexOutOfBounds
      else Inr (child_rows, others_row, others_base))"
  by pat_completeness auto
termination
  by (relation "measure (\<lambda>(max_rows, base, i, child_rows, others_row, others_base). length child_rows)")
     auto

declare ComputeRows_filter.simps [simp del]

text \<open>
  \<^verbatim>\<open>ComputeRows\<close> up to the second sort: the rows of one level, the rollup that stands for
  \<open>[Other]\<close> and the base totals of \<open>[Other]\<close>.  The rest of the function computes the
  percentages and recurses into the rows.  \<^verbatim>\<open>std::sort\<close> is the stable insertion sort
  here; rows of one level have distinct names, hence distinct ranks.
\<close>

definition ComputeRows_rows ::
  "options \<Rightarrow> bool \<Rightarrow> string \<Rightarrow> rollup option \<Rightarrow> rollup_row list \<Rightarrow>
   error + rollup_row list \<times> rollup \<times> rollup" where
  "ComputeRows_rows opts is_toplevel row_name base rows =
     (let child_rows = ComputeRows_clear is_toplevel row_name rows
      in if child_rows = [] then Inr ([], new_Rollup, new_Rollup)
         else
           (let sorted = sort_key (collapse_rank opts) child_rows;
                i = word_of_nat (length sorted) - 1
            in case ComputeRows_filter (max_rows_per_level opts) base i sorted
                      \<lparr>name = others_label, vmsize = 0, filesize = 0\<rparr> new_Rollup of
                 Inl e \<Rightarrow> Inl e
               | Inr (kept, others_row, others_base) \<Rightarrow>
                   if \<bar>sint (vmsize others_row)\<bar> > 0 \<or> \<bar>sint (filesize others_row)\<bar> > 0 then
                     (case CheckedAdd 0 (sint (vmsize others_row)) of
                        Inl e \<Rightarrow> Inl e
                      | Inr ovm \<Rightarrow>
                     (case CheckedAdd 0 (sint (filesize others_row)) of
                        Inl e \<Rightarrow> Inl e
                      | Inr ofile \<Rightarrow>
                          Inr (sort_key (rank opts) (kept @ [others_row]),
                               Rollup ovm ofile fmempty, others_base)))
                   else Inr (sort_key (rank opts) kept, new_Rollup, others_base)))"

section \<open>Proofs\<close>

subsection \<open>The invariant of a range map\<close>

lemma wf_map_Nil: "wf_map []"
  by (simp add: wf_map_def)

lemma wf_map_Cons:
  "wf_map (x # m) = (fst x < entry_end (snd x) \<and> (\<forall>y\<in>set m. entry_end (snd x) \<le> fst y) \<and> wf_map m)"
  by (auto simp: wf_map_def)

lemma wf_nonempty: "wf_map m \<Longrightarrow> x \<in> set m \<Longrightarrow> fst x < entry_end (snd x)"
  by (simp add: wf_map_def list_all_iff)

lemma wf_pairwise:
  "wf_map m \<Longrightarrow> x \<in> set m \<Longrightarrow> y \<in> set m \<Longrightarrow> fst x < fst y \<Longrightarrow> entry_end (snd x) \<le> fst y"
proof (induction m)
  case Nil
  then show ?case by simp
next
  case (Cons z m)
  from Cons.prems(1) have z: "fst z < entry_end (snd z)" "\<forall>y\<in>set m. entry_end (snd z) \<le> fst y" "wf_map m"
    by (simp_all add: wf_map_Cons)
  show ?case
  proof (cases "x = z")
    case True
    with Cons.prems z show ?thesis by auto
  next
    case xz: False
    show ?thesis
    proof (cases "y = z")
      case True
      with xz Cons.prems have "x \<in> set m" by simp
      with z have "entry_end (snd z) \<le> fst x" by simp
      with z(1) True Cons.prems(4) show ?thesis by simp
    next
      case False
      with xz Cons.prems z(3) Cons.IH show ?thesis by simp
    qed
  qed
qed

lemma wf_keys_sorted: "wf_map m \<Longrightarrow> sorted_wrt (\<lambda>x y. fst x < fst y) m"
proof (induction m)
  case Nil
  then show ?case by simp
next
  case (Cons z m)
  then show ?case by (fastforce simp: wf_map_Cons)
qed

lemma wf_key_inj: "wf_map m \<Longrightarrow> x \<in> set m \<Longrightarrow> y \<in> set m \<Longrightarrow> fst x = fst y \<Longrightarrow> x = y"
proof (induction m)
  case Nil
  then show ?case by simp
next
  case (Cons z m)
  then show ?case by (fastforce simp: wf_map_Cons)
qed

lemma wf_NonOverlapping: "wf_map m \<Longrightarrow> NonOverlapping m"
  by (induction m rule: NonOverlapping.induct) (auto simp: wf_map_Cons)

lemma upper_bound_least:
  "sorted_wrt (\<lambda>x y. fst x < fst y) m \<Longrightarrow> upper_bound m a = Some x \<Longrightarrow> z \<in> set m \<Longrightarrow> a < fst z \<Longrightarrow> fst x \<le> fst z"
  by (induction m) (auto split: if_splits)

lemma upper_bound_None:
  "upper_bound m a = None \<Longrightarrow> z \<in> set m \<Longrightarrow> fst z \<le> a"
  by (induction m) (auto split: if_splits)

lemma iter_prev_Some:
  "iter_prev m a = Some x \<Longrightarrow> x \<in> set m \<and> fst x \<le> a"
  by (induction m) (auto split: if_splits option.splits)

lemma iter_prev_None:
  "iter_prev m a = None \<Longrightarrow> z \<in> set m \<Longrightarrow> sorted_wrt (\<lambda>x y. fst x < fst y) m \<Longrightarrow> a < fst z"
  by (induction m) (auto split: if_splits option.splits)

lemma iter_prev_greatest:
  "sorted_wrt (\<lambda>x y. fst x < fst y) m \<Longrightarrow> iter_prev m a = Some x \<Longrightarrow> z \<in> set m \<Longrightarrow> fst z \<le> a \<Longrightarrow> fst z \<le> fst x"
proof (induction m arbitrary: x)
  case Nil
  then show ?case by simp
next
  case (Cons y m)
  from Cons.prems(1) have sm: "sorted_wrt (\<lambda>x y. fst x < fst y) m" and ym: "\<forall>w\<in>set m. fst y < fst w"
    by simp_all
  from Cons.prems(2) have ya: "\<not> a < fst y" by (auto split: if_splits)
  show ?case
  proof (cases "iter_prev m a")
    case None
    with Cons.prems(2) ya have "x = y" by simp
    moreover have "z \<in> set m \<Longrightarrow> a < fst z"
      using iter_prev_None[OF None _ sm] by simp
    ultimately show ?thesis using Cons.prems(3,4) by auto
  next
    case (Some w)
    with Cons.prems(2) ya have xw: "x = w" by simp
    from Some have "w \<in> set m" using iter_prev_Some by blast
    with ym have "fst y < fst w" by simp
    moreover have "z \<in> set m \<Longrightarrow> fst z \<le> fst w"
      using Cons.IH[OF sm Some _ Cons.prems(4)] by simp
    ultimately show ?thesis using Cons.prems(3) xw by auto
  qed
qed

lemma set_map_insert:
  "fst x \<notin> fst ` set m \<Longrightarrow> set (map_insert x m) = insert x (set m)"
  by (induction m) auto

lemma set_map_insert_subset: "set (map_insert x m) \<subseteq> insert x (set m)"
  by (induction m) auto

lemma wf_map_insert:
  "wf_map m \<Longrightarrow> fst x < entry_end (snd x) \<Longrightarrow>
   (\<forall>z\<in>set m. entry_end (snd z) \<le> fst x \<or> entry_end (snd x) \<le> fst z) \<Longrightarrow>
   wf_map (map_insert x m)"
proof (induction m)
  case Nil
  then show ?case by (simp add: wf_map_def)
next
  case (Cons y m)
  from Cons.prems(1) have y: "fst y < entry_end (snd y)" "\<forall>z\<in>set m. entry_end (snd y) \<le> fst z" "wf_map m"
    by (simp_all add: wf_map_Cons)
  from Cons.prems(3) have xy: "entry_end (snd y) \<le> fst x \<or> entry_end (snd x) \<le> fst y" by simp
  show ?case
  proof (cases "fst x < fst y")
    case True
    with xy y(1) have "entry_end (snd x) \<le> fst y" by auto
    moreover have "\<forall>z\<in>set m. entry_end (snd x) \<le> fst z"
      using y calculation by (meson order.trans less_imp_le)
    ultimately show ?thesis using True Cons.prems by (simp add: wf_map_Cons)
  next
    case False
    show ?thesis
    proof (cases "fst x = fst y")
      case True
      then show ?thesis using Cons.prems(1) by simp
    next
      case neq: False
      with False xy Cons.prems(2) have le: "entry_end (snd y) \<le> fst x"
        by (metis not_less_iff_gr_or_eq order.strict_trans1)
      have "wf_map (map_insert x m)"
        using Cons.IH y(3) Cons.prems(2,3) by simp
      moreover have "\<forall>z\<in>set (map_insert x m). entry_end (snd y) \<le> fst z"
        using y(2) le set_map_insert_subset[of x m] by auto
      ultimately show ?thesis using False neq y(1) by (simp add: wf_map_Cons)
    qed
  qed
qed

lemma loop_inv_next:
  assumes wf: "wf_map m" and x: "x \<in> set m"
  shows "loop_inv m (entry_end (snd x)) (iter_next m x)"
proof -
  note ks = wf_keys_sorted[OF wf]
  have J1: "entry_end (snd z) \<le> entry_end (snd x)"
    if z: "z \<in> set m" and b: "before_iter z (iter_next m x)" for z
  proof -
    consider "fst z < fst x" | "fst z = fst x" | "fst x < fst z" by (metis linorder_less_linear)
    then show ?thesis
    proof cases
      case 1
      then have "entry_end (snd z) \<le> fst x" using wf_pairwise[OF wf z x] by simp
      with wf_nonempty[OF wf x] show ?thesis by simp
    next
      case 2
      then have "z = x" using wf_key_inj[OF wf z x] by simp
      then show ?thesis by simp
    next
      case 3
      show ?thesis
      proof (cases "iter_next m x")
        case None
        then have "fst z \<le> fst x" using upper_bound_None[of m "fst x" z] z by (simp add: iter_next_def)
        with 3 show ?thesis by simp
      next
        case (Some y)
        then have "fst y \<le> fst z" using upper_bound_least[OF ks _ z 3, of y] by (simp add: iter_next_def)
        with b Some show ?thesis by (simp add: before_iter_def)
      qed
    qed
  qed
  have J2: "y \<in> set m \<and> entry_end (snd x) < entry_end (snd y)" if "iter_next m x = Some y" for y
  proof -
    from that have y: "y \<in> set m" "fst x < fst y"
      using upper_bound_Some[of m "fst x" y] by (simp_all add: iter_next_def)
    then have "entry_end (snd x) \<le> fst y" using wf_pairwise[OF wf x] by simp
    with wf_nonempty[OF wf y(1)] y(1) show ?thesis by simp
  qed
  show ?thesis unfolding loop_inv_def using J1 J2 by blast
qed

lemma skip_covered_inv:
  "wf_map m \<Longrightarrow> loop_inv m addr it \<Longrightarrow> skip_covered m addr it = (addr', it') \<Longrightarrow>
   loop_inv m addr' it' \<and> addr \<le> addr' \<and> (\<forall>y. it' = Some y \<longrightarrow> addr' < fst y) \<and>
   (\<forall>a. addr \<le> a \<and> a < addr' \<longrightarrow> covered m a)"
proof (induction m addr it arbitrary: addr' it' rule: skip_covered.induct)
  case (1 m addr)
  then show ?case by auto
next
  case (2 m addr x)
  from "2.prems"(2) have x: "x \<in> set m" "addr < entry_end (snd x)" by (simp_all add: loop_inv_def)
  show ?case
  proof (cases "EntryContains x addr")
    case True
    with "2.prems"(3) have sk: "skip_covered m (entry_end (snd x)) (iter_next m x) = (addr', it')" by simp
    from "2.IH"[OF True "2.prems"(1) loop_inv_next[OF "2.prems"(1) x(1)] sk]
    have ih: "loop_inv m addr' it'" "entry_end (snd x) \<le> addr'" "\<forall>y. it' = Some y \<longrightarrow> addr' < fst y"
      "\<forall>a. entry_end (snd x) \<le> a \<and> a < addr' \<longrightarrow> covered m a" by simp_all
    have "covered m a" if "addr \<le> a" "a < addr'" for a
    proof (cases "a < entry_end (snd x)")
      case True
      with that \<open>EntryContains x addr\<close> have "EntryContains x a" by (auto simp: EntryContains_def)
      with x(1) show ?thesis unfolding covered_def by blast
    next
      case False
      with ih(4) that show ?thesis by simp
    qed
    with ih x(2) show ?thesis by auto
  next
    case False
    with "2.prems"(3) have "addr' = addr" "it' = Some x" by simp_all
    with "2.prems"(2) False x(2) show ?thesis by (auto simp: EntryContains_def)
  qed
qed

lemma FindContainingOrAfter_inv:
  assumes wf: "wf_map m"
  shows "loop_inv m addr (FindContainingOrAfter m addr)"
proof -
  note ks = wf_keys_sorted[OF wf]
  have ub: "loop_inv m addr (upper_bound m addr)" if nc: "\<And>x. iter_prev m addr = Some x \<Longrightarrow> \<not> EntryContains x addr"
  proof -
    have J1: "entry_end (snd z) \<le> addr" if z: "z \<in> set m" and b: "before_iter z (upper_bound m addr)" for z
    proof -
      have za: "fst z \<le> addr"
      proof (cases "upper_bound m addr")
        case None
        then show ?thesis using upper_bound_None z by blast
      next
        case (Some y)
        show ?thesis
        proof (rule ccontr)
          assume "\<not> fst z \<le> addr"
          then have "fst y \<le> fst z" using upper_bound_least[OF ks Some z] by simp
          with b Some show False by (simp add: before_iter_def)
        qed
      qed
      show ?thesis
      proof (cases "iter_prev m addr")
        case None
        then show ?thesis using iter_prev_None[OF None z ks] za by simp
      next
        case (Some x)
        then have x: "x \<in> set m" "fst x \<le> addr" using iter_prev_Some by blast+
        from nc[OF Some] x(2) have ex: "entry_end (snd x) \<le> addr" by (simp add: EntryContains_def)
        have "fst z \<le> fst x" using iter_prev_greatest[OF ks Some z za] .
        then consider "fst z < fst x" | "fst z = fst x" by (metis le_less)
        then show ?thesis
        proof cases
          case 1
          then have "entry_end (snd z) \<le> fst x" using wf_pairwise[OF wf z x(1)] by simp
          with x(2) show ?thesis by simp
        next
          case 2
          then have "z = x" using wf_key_inj[OF wf z x(1)] by simp
          with ex show ?thesis by simp
        qed
      qed
    qed
    have J2: "y \<in> set m \<and> addr < entry_end (snd y)" if "upper_bound m addr = Some y" for y
    proof -
      from that have y: "y \<in> set m" "addr < fst y" using upper_bound_Some by blast+
      with wf_nonempty[OF wf y(1)] show ?thesis by simp
    qed
    show ?thesis unfolding loop_inv_def using J1 J2 by blast
  qed
  show ?thesis
  proof (cases "iter_prev m addr")
    case None
    then show ?thesis using ub by (simp add: FindContainingOrAfter_def)
  next
    case (Some x)
    show ?thesis
    proof (cases "EntryContains x addr")
      case False
      with Some ub show ?thesis by (simp add: FindContainingOrAfter_def)
    next
      case True
      from Some have x: "x \<in> set m" using iter_prev_Some by blast
      have "entry_end (snd z) \<le> addr" if z: "z \<in> set m" and b: "fst z < fst x" for z
        using wf_pairwise[OF wf z x b] True by (auto simp: EntryContains_def)
      with True x Some show ?thesis
        by (simp add: FindContainingOrAfter_def loop_inv_def before_iter_def EntryContains_def)
    qed
  qed
qed

lemma covered_mono: "set m \<subseteq> set m' \<Longrightarrow> covered m a \<Longrightarrow> covered m' a"
  unfolding covered_def by blast

lemma AddDualRange_loop_post:
  "wf_map m \<Longrightarrow> loop_inv m addr it \<Longrightarrow>
   \<exists>m'. AddDualRange_loop base end0 otheraddr val addr it m = Some m' \<and>
        add_post m base addr end0 otheraddr val m'"
proof (induction "unat end0 - unat addr" arbitrary: addr it m rule: less_induct)
  case less
  note wf = less.prems(1) and inv = less.prems(2)
  obtain addr' it' where sk: "skip_covered m addr it = (addr', it')" by (cases "skip_covered m addr it")
  from skip_covered_inv[OF wf inv sk]
  have inv': "loop_inv m addr' it'" and le: "addr \<le> addr'"
    and gap: "\<And>y. it' = Some y \<Longrightarrow> addr' < fst y"
    and cov: "\<And>a. addr \<le> a \<Longrightarrow> a < addr' \<Longrightarrow> covered m a" by auto
  show ?case
  proof (cases "addr' \<ge> end0")
    case True
    have "AddDualRange_loop base end0 otheraddr val addr it m = Some m"
      by (subst AddDualRange_loop.simps) (simp add: sk True)
    moreover have "add_post m base addr end0 otheraddr val m"
      unfolding add_post_def using wf cov True by auto
    ultimately show ?thesis by blast
  next
    case False
    then have lt: "addr' < end0" by simp
    define this_end where "this_end =
      (case it' of None \<Rightarrow> end0 | Some x \<Rightarrow> if end0 > fst x then min end0 (fst x) else end0)"
    define other where "other = (if otheraddr = UINT64_MAX then UINT64_MAX else addr' - base + otheraddr)"
    define n where "n = (addr', \<lparr>label = val, entry_end = this_end, other_start = other\<rparr>)"
    define m1 where "m1 = map_insert n m"
    have te1: "addr' < this_end" using lt gap
      by (auto simp: this_end_def min_def split: option.splits)
    have te2: "this_end \<le> end0"
      by (auto simp: this_end_def split: option.splits)
    have te3: "this_end \<le> fst y" if "it' = Some y" for y
      using that by (auto simp: this_end_def)
    have te4: "this_end = end0 \<or> (\<exists>y. it' = Some y \<and> this_end = fst y)"
      by (auto simp: this_end_def min_def split: option.splits)
    have n_simps: "fst n = addr'" "entry_end (snd n) = this_end" "label (snd n) = val"
      "other_start (snd n) = other" by (simp_all add: n_def)
    have nb: "fst y \<le> fst z" if "z \<in> set m" "\<not> before_iter z it'" "it' = Some y" for z y
      using that by (auto simp: before_iter_def)
    have nb2: "\<exists>y. it' = Some y" if "\<not> before_iter z it'" for z
      using that by (cases it') (auto simp: before_iter_def)
    have bef: "entry_end (snd z) \<le> addr'" if "z \<in> set m" "before_iter z it'" for z
      using inv' that by (simp add: loop_inv_def)
    have fresh: "fst n \<notin> fst ` set m"
    proof
      assume "fst n \<in> fst ` set m"
      then obtain z where z: "z \<in> set m" "fst z = addr'" by (auto simp: n_simps)
      show False
      proof (cases "before_iter z it'")
        case True
        from bef[OF z(1) True] wf_nonempty[OF wf z(1)] z(2) show False by auto
      next
        case False
        then obtain y where y: "it' = Some y" using nb2 by blast
        from nb[OF z(1) False y] gap[OF y] z(2) show False by auto
      qed
    qed
    have compat: "\<forall>z\<in>set m. entry_end (snd z) \<le> fst n \<or> entry_end (snd n) \<le> fst z"
    proof
      fix z assume z: "z \<in> set m"
      show "entry_end (snd z) \<le> fst n \<or> entry_end (snd n) \<le> fst z"
      proof (cases "before_iter z it'")
        case True
        from bef[OF z True] show ?thesis by (simp add: n_simps)
      next
        case False
        then obtain y where y: "it' = Some y" using nb2 by blast
        from nb[OF z False y] te3[OF y] show ?thesis by (auto simp: n_simps)
      qed
    qed
    have wf1: "wf_map m1"
      unfolding m1_def using wf_map_insert[OF wf _ compat] te1 by (simp add: n_simps)
    have set1: "set m1 = insert n (set m)"
      unfolding m1_def by (rule set_map_insert[OF fresh])
    have inv1: "loop_inv m1 this_end it'"
      unfolding loop_inv_def
    proof (intro conjI ballI allI impI)
      fix z assume z: "z \<in> set m1" and b: "before_iter z it'"
      show "entry_end (snd z) \<le> this_end"
      proof (cases "z = n")
        case True
        then show ?thesis by (simp add: n_simps)
      next
        case False
        with z set1 have "z \<in> set m" by simp
        from bef[OF this b] te1 show ?thesis by auto
      qed
    next
      fix y assume y: "it' = Some y"
      with inv' have ym: "y \<in> set m" by (simp add: loop_inv_def)
      then show "y \<in> set m1" using set1 by simp
      from te3[OF y] wf_nonempty[OF wf ym] show "this_end < entry_end (snd y)" by auto
    qed
    have "unat addr \<le> unat addr'" "unat addr' < unat this_end" "unat this_end \<le> unat end0"
      using le te1 te2 by (simp_all add: word_le_nat_alt word_less_nat_alt)
    then have meas: "unat end0 - unat this_end < unat end0 - unat addr" by simp
    from less.hyps[OF meas wf1 inv1] obtain m' where
      run: "AddDualRange_loop base end0 otheraddr val this_end it' m1 = Some m'" and
      post: "add_post m1 base this_end end0 otheraddr val m'" by blast
    from post have wf': "wf_map m'" and sub': "set m1 \<subseteq> set m'"
      and new': "\<And>x. x \<in> set m' \<Longrightarrow> x \<notin> set m1 \<Longrightarrow>
         label (snd x) = val \<and>
         other_start (snd x) = (if otheraddr = UINT64_MAX then UINT64_MAX else fst x - base + otheraddr) \<and>
         this_end \<le> fst x \<and> entry_end (snd x) \<le> end0 \<and>
         (entry_end (snd x) = end0 \<or> entry_end (snd x) \<in> fst ` set m1)"
      and cov': "\<And>a. this_end \<le> a \<Longrightarrow> a < end0 \<Longrightarrow> covered m' a"
      unfolding add_post_def by auto
    have "AddDualRange_loop base end0 otheraddr val addr it m = Some m'"
      by (subst AddDualRange_loop.simps)
         (simp add: sk False run[unfolded m1_def n_def this_end_def other_def] Let_def)
    moreover have "add_post m base addr end0 otheraddr val m'"
      unfolding add_post_def
    proof (intro conjI ballI allI impI)
      show "wf_map m'" by (rule wf')
      show "set m \<subseteq> set m'" using sub' set1 by auto
    next
      fix x assume x: "x \<in> set m' - set m"
      have props: "label (snd x) = val \<and>
         other_start (snd x) = (if otheraddr = UINT64_MAX then UINT64_MAX else fst x - base + otheraddr) \<and>
         addr \<le> fst x \<and> entry_end (snd x) \<le> end0 \<and>
         (entry_end (snd x) = end0 \<or> entry_end (snd x) \<in> fst ` set m)"
      proof (cases "x = n")
        case True
        have "this_end = end0 \<or> this_end \<in> fst ` set m"
        proof (cases "this_end = end0")
          case False
          with te4 obtain y where y: "it' = Some y" "this_end = fst y" by blast
          with inv' have "y \<in> set m" by (simp add: loop_inv_def)
          with y(2) show ?thesis by auto
        qed simp
        with True le te2 show ?thesis by (simp add: n_simps other_def)
      next
        case False
        with x set1 have xm: "x \<in> set m'" "x \<notin> set m1" by auto
        note p = new'[OF xm]
        from p have ge: "this_end \<le> fst x" by simp
        have "addr \<le> fst x" using le te1 ge by auto
        moreover have "entry_end (snd x) \<noteq> addr'"
          using wf_nonempty[OF wf' xm(1)] ge te1 by auto
        ultimately show ?thesis using p set1 by (auto simp: n_simps)
      qed
      from props show "label (snd x) = val" by simp
      from props show "other_start (snd x) = (if otheraddr = UINT64_MAX then UINT64_MAX else fst x - base + otheraddr)" by simp
      from props show "addr \<le> fst x" by simp
      from props show "entry_end (snd x) \<le> end0" by simp
      from props show "entry_end (snd x) = end0 \<or> entry_end (snd x) \<in> fst ` set m" by simp
    next
      fix a assume a: "addr \<le> a \<and> a < end0"
      consider "a < addr'" | "addr' \<le> a" "a < this_end" | "this_end \<le> a"
        by (metis not_le)
      then show "covered m' a"
      proof cases
        case 1
        from cov[OF _ 1] a have "covered m a" by simp
        then show ?thesis using covered_mono[of m m'] sub' set1 by auto
      next
        case 2
        then have "EntryContains n a" by (simp add: EntryContains_def n_simps)
        moreover have "n \<in> set m'" using sub' set1 by auto
        ultimately show ?thesis unfolding covered_def by blast
      next
        case 3
        from cov'[OF 3] a show ?thesis by simp
      qed
    qed
    ultimately show ?thesis by blast
  qed
qed

lemma AddDualRange_loop_noop:
  assumes wf: "wf_map m" and inv: "loop_inv m addr it" and le: "end0 \<le> addr"
  shows "AddDualRange_loop base end0 otheraddr val addr it m = Some m"
proof -
  obtain addr' it' where sk: "skip_covered m addr it = (addr', it')" by (cases "skip_covered m addr it")
  from skip_covered_inv[OF wf inv sk] have "addr \<le> addr'" by simp
  with le have "end0 \<le> addr'" by auto
  then show ?thesis by (subst AddDualRange_loop.simps) (simp add: sk)
qed

lemma AddDualRange_post:
  assumes wf: "wf_map m"
  shows "\<exists>m'. AddDualRange m addr sz otheraddr val = Some m' \<and> (addr + sz \<le> addr \<longrightarrow> m' = m) \<and>
          add_post m addr addr (addr + sz) otheraddr val m'"
proof (cases "sz = 0")
  case True
  then show ?thesis using wf by (auto simp: AddDualRange_def add_post_def)
next
  case False
  note inv = FindContainingOrAfter_inv[OF wf, of addr]
  from AddDualRange_loop_post[OF wf inv,
      where base = addr and ?end0.0 = "addr + sz" and otheraddr = otheraddr and val = val]
  obtain m' where run: "AddDualRange m addr sz otheraddr val = Some m'"
    and post: "add_post m addr addr (addr + sz) otheraddr val m'"
    using False by (auto simp: AddDualRange_def)
  have "m' = m" if "addr + sz \<le> addr"
    using AddDualRange_loop_noop[OF wf inv that, of addr otheraddr val] run False
    by (simp add: AddDualRange_def)
  with run post show ?thesis by blast
qed

lemma TranslateWithEntry_asserts:
  "TranslateAndTrimRangeWithEntry it addr0 end0 = Some r \<Longrightarrow>
     EntryContains it (max addr0 (fst it)) \<and> HasTranslation (snd it)"
  "FindContaining m addr = Some x \<Longrightarrow> EntryContains x addr"
  by (auto simp: TranslateAndTrimRangeWithEntry_def FindContaining_def EntryContains_def Let_def
        min_def max_def not_le split: if_splits option.splits)

lemma FindContaining_iff:
  assumes wf: "wf_map m"
  shows "FindContaining m a = Some x \<longleftrightarrow> x \<in> set m \<and> EntryContains x a"
proof
  assume "FindContaining m a = Some x"
  then show "x \<in> set m \<and> EntryContains x a"
    using iter_prev_Some[of m a]
    by (auto simp: FindContaining_def split: option.splits if_splits)
next
  assume x: "x \<in> set m \<and> EntryContains x a"
  note ks = wf_keys_sorted[OF wf]
  from x have xa: "fst x \<le> a" "a < entry_end (snd x)" by (simp_all add: EntryContains_def)
  have "iter_prev m a \<noteq> None"
  proof
    assume "iter_prev m a = None"
    then have "a < fst x" using iter_prev_None[of m a x] ks x by blast
    with xa(1) show False by auto
  qed
  then obtain y where y: "iter_prev m a = Some y" by blast
  then have ym: "y \<in> set m" "fst y \<le> a" using iter_prev_Some by blast+
  have le: "fst x \<le> fst y" using iter_prev_greatest[OF ks y _ xa(1)] x by simp
  have "fst x = fst y"
  proof (rule ccontr)
    assume "fst x \<noteq> fst y"
    with le have "fst x < fst y" by simp
    then have "entry_end (snd x) \<le> fst y" using wf_pairwise[OF wf _ ym(1)] x by simp
    with ym(2) xa(2) show False by auto
  qed
  then have "x = y" using wf_key_inj[OF wf _ ym(1)] x by simp
  with y x show "FindContaining m a = Some x" by (simp add: FindContaining_def)
qed

lemma FindContaining_None:
  assumes wf: "wf_map m"
  shows "FindContaining m a = None \<longleftrightarrow> \<not> covered m a"
proof -
  have "FindContaining m a \<noteq> None \<longleftrightarrow> covered m a"
    using FindContaining_iff[OF wf, of a] unfolding covered_def by auto
  then show ?thesis by blast
qed

lemma AddRange_post:
  assumes wf: "wf_map m"
  shows "\<exists>m'. AddRange m addr sz val = Some m' \<and> (addr + sz \<le> addr \<longrightarrow> m' = m) \<and>
          add_post m addr addr (addr + sz) UINT64_MAX val m'"
  unfolding AddRange_def by (rule AddDualRange_post[OF wf])

lemma AddRangeWithTranslation_loop_wf:
  "wf_map other \<Longrightarrow>
   \<exists>other'. AddRangeWithTranslation_loop t addr end0 val it other = Some other' \<and> wf_map other'"
proof (induction t addr end0 val it other rule: AddRangeWithTranslation_loop.induct)
  case (1 t addr end0 val other)
  then show ?case by simp
next
  case (2 t addr end0 val x other)
  show ?case
  proof (cases "fst x < end0")
    case False
    with "2.prems" show ?thesis by simp
  next
    case True
    obtain o1 where o1: "(case TranslateAndTrimRangeWithEntry x addr end0 of
                 None \<Rightarrow> Some other
               | Some (this_addr, this_size) \<Rightarrow> AddRange other this_addr this_size val) = Some o1"
      and wf1: "wf_map o1"
    proof (cases "TranslateAndTrimRangeWithEntry x addr end0")
      case None
      with "2.prems" that show ?thesis by simp
    next
      case (Some p)
      obtain a s where p: "p = (a, s)" by (cases p)
      from AddRange_post[OF "2.prems", of a s val] obtain o1 where
        "AddRange other a s val = Some o1" "wf_map o1" by (auto simp: add_post_def)
      with Some p that show ?thesis by simp
    qed
    from "2.IH"[OF True o1 wf1] True o1 show ?thesis by simp
  qed
qed

lemma AddRangeWithTranslation_wf:
  assumes "wf_map m" "wf_map other"
  shows "\<exists>m' other'. AddRangeWithTranslation m addr sz val t other = Some (m', other') \<and>
           wf_map m' \<and> wf_map other'"
proof -
  from AddRange_post[OF assms(1), of addr sz val] obtain m' where
    m': "AddRange m addr sz val = Some m'" "wf_map m'" by (auto simp: add_post_def)
  from AddRangeWithTranslation_loop_wf[OF assms(2),
      of t addr "addr + sz" val "FindContainingOrAfter t addr"]
  obtain other' where "AddRangeWithTranslation_loop t addr (addr + sz) val
      (FindContainingOrAfter t addr) other = Some other'" "wf_map other'" by blast
  with m' show ?thesis by (simp add: AddRangeWithTranslation_def)
qed

lemma reachable_wf: "reachable m \<Longrightarrow> wf_map m"
proof (induction rule: reachable.induct)
  case reachable_empty
  show ?case by (rule wf_map_Nil)
next
  case (reachable_AddRange m addr sz val m')
  with AddRange_post[OF reachable_AddRange.IH, of addr sz val] show ?case
    by (auto simp: add_post_def)
next
  case (reachable_AddDualRange m addr sz otheraddr val m')
  with AddDualRange_post[OF reachable_AddDualRange.IH, of addr sz otheraddr val] show ?case
    by (auto simp: add_post_def)
next
  case (reachable_AddRangeWithTranslation_self m translator other addr sz val m' other')
  with AddRangeWithTranslation_wf[of m other addr sz val translator] show ?case by auto
next
  case (reachable_AddRangeWithTranslation_other m translator other addr sz val m' other')
  with AddRangeWithTranslation_wf[of m other addr sz val translator] show ?case by auto
qed

lemma NonOverlapping_nth:
  "NonOverlapping m \<Longrightarrow> Suc i < length m \<Longrightarrow> entry_end (snd (m ! i)) \<le> fst (m ! Suc i)"
proof (induction m arbitrary: i rule: NonOverlapping.induct)
  case (3 x y m)
  then show ?case by (cases i) auto
qed simp_all

lemmas RangeMap_eval =
  AddRange_def AddDualRange_def AddDualRange_loop.simps FindContainingOrAfter_def
  EntryContains_def iter_next_def UINT64_MAX_def Let_def

lemma AddRange_example_A:
  "AddRange [] 0 100 ''A'' = Some [(0, \<lparr>label = ''A'', entry_end = 100, other_start = UINT64_MAX\<rparr>)]"
  by (simp add: RangeMap_eval)


lemma reachable_example_A:
  "reachable [(0, \<lparr>label = ''A'', entry_end = 100, other_start = UINT64_MAX\<rparr>)]"
  by (rule reachable_AddRange[OF reachable_empty AddRange_example_A])

subsection \<open>The join of range maps\<close>

lemma loop_inv_iter_ok: "loop_inv m c it \<Longrightarrow> c \<le> c' \<Longrightarrow> iter_ok m c' it"
  unfolding loop_inv_def iter_ok_def by (auto intro: order_trans)

lemma advance_inv: "wf_map m \<Longrightarrow> iter_ok m c it \<Longrightarrow> loop_inv m c (advance m c it)"
proof (induction m c it rule: advance.induct)
  case (1 m current)
  then show ?case by (simp add: loop_inv_def iter_ok_def)
next
  case (2 m current x)
  from "2.prems"(2) have x: "x \<in> set m" by (simp add: iter_ok_def)
  show ?case
  proof (cases "RangeEnd x \<le> current")
    case True
    have "iter_ok m current (iter_next m x)"
      using loop_inv_iter_ok[OF loop_inv_next[OF "2.prems"(1) x]] True by (simp add: RangeEnd_def)
    from "2.IH"[OF True "2.prems"(1) this] True show ?thesis by simp
  next
    case False
    with "2.prems"(2) x show ?thesis by (auto simp: loop_inv_def iter_ok_def RangeEnd_def)
  qed
qed

lemma not_covered_end: "loop_inv m c None \<Longrightarrow> c \<le> a \<Longrightarrow> \<not> covered m a"
  unfolding loop_inv_def covered_def before_iter_def EntryContains_def by fastforce

lemma not_covered_gap:
  assumes "loop_inv m c (Some x)" "c \<le> a" "a < fst x"
  shows "\<not> covered m a"
proof
  assume "covered m a"
  then obtain z where z: "z \<in> set m" "fst z \<le> a" "a < entry_end (snd z)"
    unfolding covered_def EntryContains_def by blast
  show False
  proof (cases "fst z < fst x")
    case True
    with assms(1) z(1) have "entry_end (snd z) \<le> c" by (simp add: loop_inv_def before_iter_def)
    with assms(2) z(3) show False by auto
  next
    case False
    with z(2) assms(3) show False by auto
  qed
qed

lemma ComputeRollup_for_result:
  "ComputeRollup_for fn pos c i ps keys nb0 hd0 = (ps', keys', nb, hdata) \<Longrightarrow>
   ps' = map (\<lambda>(m, it). (m, advance m c it)) ps \<and> nb \<le> nb0 \<and>
   (\<forall>(m, it)\<in>set ps. \<forall>x. advance m c it = Some x \<longrightarrow>
        nb \<le> (if c < fst x then fst x else RangeEnd x)) \<and>
   (hdata \<longleftrightarrow> hd0 \<or> (\<exists>(m, it)\<in>set ps. \<exists>x. advance m c it = Some x \<and> fst x \<le> c))"
proof (induction ps arbitrary: i keys nb0 hd0 ps' keys' nb hdata)
  case Nil
  then show ?case by simp
next
  case (Cons p ps)
  obtain m it where p: "p = (m, it)" by (cases p)
  define st where "st = (case advance m c it of
                 None \<Rightarrow> (keys, nb0, hd0)
               | Some x \<Rightarrow>
                   if fst x > c
                   then (keys, min nb0 (fst x), hd0)
                   else (keys, min nb0 (RangeEnd x), True))"
  obtain k1 nb1 hd1 ps1 where
    rec: "ComputeRollup_for fn pos c (i + 1) ps k1 nb1 hd1 = (ps1, keys', nb, hdata)"
    and ps': "ps' = (m, advance m c it) # ps1"
    and nb1: "nb1 = fst (snd st)" and hd1: "hd1 = snd (snd st)"
    using Cons.prems unfolding p st_def
    by (auto simp: Let_def split: prod.splits option.splits if_splits)
  note ih = Cons.IH[OF rec]
  have nb1_le: "nb1 \<le> nb0" unfolding nb1 st_def by (auto split: option.splits)
  have cand: "nb1 \<le> (if c < fst x then fst x else RangeEnd x)" if "advance m c it = Some x" for x
    unfolding nb1 st_def using that by auto
  have hd1_iff: "hd1 \<longleftrightarrow> hd0 \<or> (\<exists>x. advance m c it = Some x \<and> fst x \<le> c)"
    unfolding hd1 st_def by (auto split: option.splits)
  from ih have "nb \<le> nb1" by simp
  show ?case
  proof (intro conjI)
    show "ps' = map (\<lambda>(m, it). (m, advance m c it)) (p # ps)" using ih ps' p by simp
    show "nb \<le> nb0" using \<open>nb \<le> nb1\<close> nb1_le by auto
    show "\<forall>(m, it)\<in>set (p # ps). \<forall>x. advance m c it = Some x \<longrightarrow>
        nb \<le> (if c < fst x then fst x else RangeEnd x)"
      using ih cand \<open>nb \<le> nb1\<close> unfolding p by (auto intro: order_trans)
    show "hdata \<longleftrightarrow> hd0 \<or> (\<exists>(m, it)\<in>set (p # ps). \<exists>x. advance m c it = Some x \<and> fst x \<le> c)"
      using ih hd1_iff unfolding p by auto
  qed
qed

lemma ComputeRollup_loop_unfold:
  assumes "ComputeRollup_for fn pos c 0 ps [] UINTPTR_MAX False = (ps', keys, nb, hdata)"
  shows "ComputeRollup_loop fn pos c ps =
     (if nb = UINTPTR_MAX then []
      else (if hdata then [(keys, c, nb)] else []) @ ComputeRollup_loop fn pos nb ps')"
  by (subst ComputeRollup_loop.simps) (simp add: assms)

lemma ComputeRollup_loop_order:
  "(\<forall>(keys, cur, nxt)\<in>set (ComputeRollup_loop fn pos c ps). c \<le> cur \<and> cur < nxt) \<and>
   sorted_wrt (\<lambda>(keys1, cur1, nxt1) (keys2, cur2, nxt2). nxt1 \<le> cur2) (ComputeRollup_loop fn pos c ps)"
proof (induction fn pos c ps rule: ComputeRollup_loop.induct)
  case (1 fn pos c ps)
  obtain ps' keys nb hdata where
    f: "ComputeRollup_for fn pos c 0 ps [] UINTPTR_MAX False = (ps', keys, nb, hdata)"
    by (cases "ComputeRollup_for fn pos c 0 ps [] UINTPTR_MAX False") auto
  note unf = ComputeRollup_loop_unfold[OF f]
  show ?case
  proof (cases "nb = UINTPTR_MAX")
    case True
    then show ?thesis by (simp add: unf)
  next
    case False
    from ComputeRollup_for_break[OF f] False have lt: "c < nb" by simp
    from "1.IH"[OF f[symmetric] refl refl False]
    have ih1: "\<forall>(keys, cur, nxt)\<in>set (ComputeRollup_loop fn pos nb ps'). nb \<le> cur \<and> cur < nxt"
      and ih2: "sorted_wrt (\<lambda>(keys1, cur1, nxt1) (keys2, cur2, nxt2). nxt1 \<le> cur2)
                 (ComputeRollup_loop fn pos nb ps')" by simp_all
    from ih1 lt have a: "\<forall>(keys, cur, nxt)\<in>set (ComputeRollup_loop fn pos nb ps'). c \<le> cur \<and> cur < nxt"
      by (auto intro: order_trans less_imp_le)
    show ?thesis using False lt a ih1 ih2 by (auto simp: unf)
  qed
qed

lemma ComputeRollup_loop_union:
  "\<forall>(m, it)\<in>set ps. wf_map m \<and> iter_ok m c it \<and> (\<forall>x\<in>set m. entry_end (snd x) \<noteq> UINTPTR_MAX) \<Longrightarrow>
   calls_union (ComputeRollup_loop fn pos c ps) = {a. c \<le> a \<and> (\<exists>(m, it)\<in>set ps. covered m a)}"
proof (induction fn pos c ps rule: ComputeRollup_loop.induct)
  case (1 fn pos c ps)
  obtain ps' keys nb hdata where
    f: "ComputeRollup_for fn pos c 0 ps [] UINTPTR_MAX False = (ps', keys, nb, hdata)"
    by (cases "ComputeRollup_for fn pos c 0 ps [] UINTPTR_MAX False") auto
  note unf = ComputeRollup_loop_unfold[OF f]
  from ComputeRollup_for_result[OF f]
  have ps': "ps' = map (\<lambda>(m, it). (m, advance m c it)) ps"
    and cand: "\<And>m it x. (m, it) \<in> set ps \<Longrightarrow> advance m c it = Some x \<Longrightarrow>
        nb \<le> (if c < fst x then fst x else RangeEnd x)"
    and hd: "hdata \<longleftrightarrow> (\<exists>(m, it)\<in>set ps. \<exists>x. advance m c it = Some x \<and> fst x \<le> c)"
    by auto
  have inv: "loop_inv m c (advance m c it)" if "(m, it) \<in> set ps" for m it
    using "1.prems" that advance_inv by auto
  have maps: "(\<exists>(m, it)\<in>set ps'. covered m a) \<longleftrightarrow> (\<exists>(m, it)\<in>set ps. covered m a)" for a
    unfolding ps' by force
  show ?case
  proof (cases "nb = UINTPTR_MAX")
    case True
    have "\<not> covered m a" if mit: "(m, it) \<in> set ps" and a: "c \<le> a" for m it a
    proof (cases "advance m c it")
      case None
      with inv[OF mit] a show ?thesis by (simp add: not_covered_end)
    next
      case (Some x)
      from cand[OF mit Some] True have top: "(if c < fst x then fst x else RangeEnd x) = UINTPTR_MAX"
        by (simp add: UINTPTR_MAX_def UINT64_MAX_minus1 word_order.extremum_unique)
      from inv[OF mit] Some have x: "x \<in> set m" by (simp add: loop_inv_def)
      with "1.prems" mit have "entry_end (snd x) \<noteq> UINTPTR_MAX" by auto
      with top have fx: "c < fst x" "fst x = UINTPTR_MAX" by (auto simp: RangeEnd_def split: if_splits)
      have "a \<le> UINTPTR_MAX" by (simp add: UINTPTR_MAX_def UINT64_MAX_minus1)
      show ?thesis
      proof (cases "a < fst x")
        case True
        from not_covered_gap[OF _ a True] inv[OF mit] Some show ?thesis by simp
      next
        case False
        with fx \<open>a \<le> UINTPTR_MAX\<close> have amax: "a = UINTPTR_MAX" by auto
        show ?thesis
        proof
          assume "covered m a"
          then obtain z where "z \<in> set m" "a < entry_end (snd z)"
            unfolding covered_def EntryContains_def by blast
          with amax show False by (simp add: UINTPTR_MAX_def UINT64_MAX_minus1 word_order.extremum_strict)
        qed
      qed
    qed
    then have "{a. c \<le> a \<and> (\<exists>(m, it)\<in>set ps. covered m a)} = {}" by auto
    with True show ?thesis by (simp add: unf calls_union_def)
  next
    case False
    from ComputeRollup_for_break[OF f] False have lt: "c < nb" by simp
    have pre: "\<forall>(m, it)\<in>set ps'. wf_map m \<and> iter_ok m nb it \<and> (\<forall>x\<in>set m. entry_end (snd x) \<noteq> UINTPTR_MAX)"
    proof (clarify, intro conjI)
      fix m it' assume "(m, it') \<in> set ps'"
      then obtain it where mit: "(m, it) \<in> set ps" and it': "it' = advance m c it"
        unfolding ps' by auto
      from "1.prems" mit show "wf_map m" by auto
      from "1.prems" mit show "\<forall>x\<in>set m. entry_end (snd x) \<noteq> UINTPTR_MAX" by auto
      from loop_inv_iter_ok[OF inv[OF mit] less_imp_le[OF lt]] show "iter_ok m nb it'"
        unfolding it' .
    qed
    from "1.IH"[OF f[symmetric] refl refl False pre]
    have ih: "calls_union (ComputeRollup_loop fn pos nb ps') = {a. nb \<le> a \<and> (\<exists>(m, it)\<in>set ps. covered m a)}"
      using maps by simp
    have now: "(\<exists>(m, it)\<in>set ps. covered m a) \<longleftrightarrow> hdata" if a: "c \<le> a" "a < nb" for a
    proof
      assume "\<exists>(m, it)\<in>set ps. covered m a"
      then obtain m it where mit: "(m, it) \<in> set ps" and cov: "covered m a" by auto
      show hdata
      proof (cases "advance m c it")
        case None
        with inv[OF mit] a(1) cov show ?thesis by (simp add: not_covered_end)
      next
        case (Some x)
        have "fst x \<le> c"
        proof (rule ccontr)
          assume n: "\<not> fst x \<le> c"
          then have "c < fst x" by auto
          with cand[OF mit Some] have "nb \<le> fst x" by simp
          with a(2) have "a < fst x" by auto
          from not_covered_gap[OF _ a(1) this] inv[OF mit] Some cov show False by simp
        qed
        with hd mit Some show ?thesis by blast
      qed
    next
      assume hdata
      with hd obtain m it x where mit: "(m, it) \<in> set ps" and x: "advance m c it = Some x" "fst x \<le> c"
        by blast
      from inv[OF mit] x(1) have xm: "x \<in> set m" by (simp add: loop_inv_def)
      from x(2) have "\<not> c < fst x" by auto
      with cand[OF mit x(1)] have "nb \<le> RangeEnd x" by simp
      with a x(2) have "EntryContains x a" by (auto simp: EntryContains_def RangeEnd_def)
      with xm mit show "\<exists>(m, it)\<in>set ps. covered m a" unfolding covered_def by auto
    qed
    have "calls_union (ComputeRollup_loop fn pos c ps) =
        (if hdata then {c..<nb} else {}) \<union> calls_union (ComputeRollup_loop fn pos nb ps')"
      using False by (simp add: unf calls_union_def)
    also have "\<dots> = {a. c \<le> a \<and> (\<exists>(m, it)\<in>set ps. covered m a)}"
    proof (rule set_eqI)
      fix a
      consider "a < c" | "c \<le> a" "a < nb" | "nb \<le> a" by (metis not_le)
      then show "a \<in> (if hdata then {c..<nb} else {}) \<union> calls_union (ComputeRollup_loop fn pos nb ps')
          \<longleftrightarrow> a \<in> {a. c \<le> a \<and> (\<exists>(m, it)\<in>set ps. covered m a)}"
      proof cases
        case 1
        with lt show ?thesis unfolding ih by auto
      next
        case 2
        with now[OF 2] show ?thesis unfolding ih by auto
      next
        case 3
        with lt have "c \<le> a" "\<not> a < nb" by auto
        then show ?thesis unfolding ih using 3 by auto
      qed
    qed
    finally show ?thesis .
  qed
qed

lemma keys_from_closed:
  "keys_from fname fpos i ks =
     (if 0 \<le> fpos \<and> i \<le> nat fpos \<and> nat fpos - i \<le> length ks
      then take (nat fpos - i) ks @ [fname] @ drop (nat fpos - i) ks
      else ks)"
proof (induction ks arbitrary: i)
  case Nil
  then show ?case by auto
next
  case (Cons k ks)
  show ?case
  proof (cases "fpos \<ge> 0 \<and> nat fpos = i")
    case True
    then show ?thesis by (simp add: Cons.IH)
  next
    case False
    then have "nat fpos - i = Suc (nat fpos - Suc i)" if "0 \<le> fpos" "i \<le> nat fpos"
      using that by auto
    with False show ?thesis by (auto simp: Cons.IH)
  qed
qed

lemma keys_from_0: "keys_from fname fpos 0 ks = keys_with_filename fname fpos ks"
  by (simp add: keys_from_closed keys_with_filename_def)

lemma ComputeRollup_for_keys:
  "ComputeRollup_for fn pos c i ps keys nb0 hd0 = (ps', keys', nb, hdata) \<Longrightarrow>
   keys' = keys @ keys_from fn pos i (map (\<lambda>(m, it). key_of_iter c (advance m c it)) ps)"
proof (induction ps arbitrary: i keys nb0 hd0 ps' keys' nb hdata)
  case Nil
  then show ?case by auto
next
  case (Cons p ps)
  obtain m it where p: "p = (m, it)" by (cases p)
  define keys1 where "keys1 = (if pos \<ge> 0 \<and> nat pos = i then keys @ [fn] else keys)"
  obtain nb1 hd1 ps1 where
    rec: "ComputeRollup_for fn pos c (i + 1) ps (keys1 @ [key_of_iter c (advance m c it)]) nb1 hd1
            = (ps1, keys', nb, hdata)"
    using Cons.prems unfolding p keys1_def key_of_iter_def
    by (auto simp: Let_def split: prod.splits option.splits if_splits)
  from Cons.IH[OF rec] show ?case
    unfolding p keys1_def by simp
qed

lemma key_of_iter_key_at:
  assumes wf: "wf_map m" and inv: "loop_inv m c it"
    and cand: "\<And>x. it = Some x \<Longrightarrow> nb \<le> (if c < fst x then fst x else RangeEnd x)"
    and a: "c \<le> a" "a < nb"
  shows "key_of_iter c it = key_at m a"
proof (cases it)
  case None
  with inv a(1) have "\<not> covered m a" by (simp add: not_covered_end)
  then have "FindContaining m a = None" using FindContaining_None[OF wf] by simp
  then show ?thesis using None by (simp add: key_of_iter_def key_at_def)
next
  case (Some x)
  show ?thesis
  proof (cases "c < fst x")
    case True
    with cand[OF Some] a(2) have "a < fst x" by auto
    from not_covered_gap[OF inv[unfolded Some] a(1) this]
    have "FindContaining m a = None" using FindContaining_None[OF wf] by simp
    then show ?thesis using Some True by (simp add: key_of_iter_def key_at_def)
  next
    case False
    with cand[OF Some] have "nb \<le> RangeEnd x" by simp
    with a False have "EntryContains x a" by (auto simp: EntryContains_def RangeEnd_def)
    moreover from inv Some have "x \<in> set m" by (simp add: loop_inv_def)
    ultimately have "FindContaining m a = Some x" using FindContaining_iff[OF wf] by simp
    with Some False show ?thesis by (simp add: key_of_iter_def key_at_def)
  qed
qed

lemma ComputeRollup_loop_keys:
  "\<forall>(m, it)\<in>set ps. wf_map m \<and> iter_ok m c it \<Longrightarrow>
   \<forall>(keys, cur, nxt)\<in>set (ComputeRollup_loop fn pos c ps). \<forall>a\<in>{cur..<nxt}.
      keys = keys_with_filename fn pos (map (\<lambda>(m, it). key_at m a) ps)"
proof (induction fn pos c ps rule: ComputeRollup_loop.induct)
  case (1 fn pos c ps)
  obtain ps' keys nb hdata where
    f: "ComputeRollup_for fn pos c 0 ps [] UINTPTR_MAX False = (ps', keys, nb, hdata)"
    by (cases "ComputeRollup_for fn pos c 0 ps [] UINTPTR_MAX False") auto
  note unf = ComputeRollup_loop_unfold[OF f]
  from ComputeRollup_for_result[OF f]
  have ps': "ps' = map (\<lambda>(m, it). (m, advance m c it)) ps"
    and cand: "\<And>m it x. (m, it) \<in> set ps \<Longrightarrow> advance m c it = Some x \<Longrightarrow>
        nb \<le> (if c < fst x then fst x else RangeEnd x)"
    by auto
  from ComputeRollup_for_keys[OF f]
  have keys: "keys = keys_with_filename fn pos (map (\<lambda>(m, it). key_of_iter c (advance m c it)) ps)"
    by (simp add: keys_from_0)
  have inv: "loop_inv m c (advance m c it)" if "(m, it) \<in> set ps" for m it
    using "1.prems" that advance_inv by auto
  show ?case
  proof (cases "nb = UINTPTR_MAX")
    case True
    then show ?thesis by (simp add: unf)
  next
    case False
    from ComputeRollup_for_break[OF f] False have lt: "c < nb" by simp
    have pre: "\<forall>(m, it)\<in>set ps'. wf_map m \<and> iter_ok m nb it"
    proof (clarify, intro conjI)
      fix m it' assume "(m, it') \<in> set ps'"
      then obtain it where mit: "(m, it) \<in> set ps" and it': "it' = advance m c it"
        unfolding ps' by auto
      from "1.prems" mit show "wf_map m" by auto
      from loop_inv_iter_ok[OF inv[OF mit] less_imp_le[OF lt]] show "iter_ok m nb it'"
        unfolding it' .
    qed
    have same: "map (\<lambda>(m, it). key_at m a) ps' = map (\<lambda>(m, it). key_at m a) ps" for a
      unfolding ps' by (simp add: case_prod_unfold comp_def)
    from "1.IH"[OF f[symmetric] refl refl False pre]
    have ih: "\<forall>(keys, cur, nxt)\<in>set (ComputeRollup_loop fn pos nb ps'). \<forall>a\<in>{cur..<nxt}.
      keys = keys_with_filename fn pos (map (\<lambda>(m, it). key_at m a) ps)"
      unfolding same .
    have now: "keys = keys_with_filename fn pos (map (\<lambda>(m, it). key_at m a) ps)"
      if a: "a \<in> {c..<nb}" for a
    proof -
      have "map (\<lambda>(m, it). key_of_iter c (advance m c it)) ps = map (\<lambda>(m, it). key_at m a) ps"
      proof (rule map_cong[OF refl], clarify)
        fix m it assume mit: "(m, it) \<in> set ps"
        from "1.prems" mit have wf: "wf_map m" by auto
        from a have "c \<le> a" "a < nb" by simp_all
        from key_of_iter_key_at[OF wf inv[OF mit] cand[OF mit] this]
        show "key_of_iter c (advance m c it) = key_at m a" by simp
      qed
      with keys show ?thesis by simp
    qed
    show ?thesis using False ih now by (auto simp: unf)
  qed
qed

lemma ComputeRollup_init_Inl:
  "ComputeRollup_init ms acc cur0 = Inl e \<longleftrightarrow> e = InvalidIterator \<and> [] \<in> set ms"
  by (induction ms arbitrary: acc cur0) (auto simp: map_begin_def split: list.splits)

lemma ComputeRollup_init_Inr:
  "ComputeRollup_init ms acc cur0 = Inr (iters, cur) \<Longrightarrow>
   iters = acc @ map (\<lambda>m. (m, map_begin m)) ms \<and> cur \<le> cur0 \<and>
   (\<forall>m\<in>set ms. \<forall>x. map_begin m = Some x \<longrightarrow> cur \<le> fst x)"
proof (induction ms arbitrary: acc cur0)
  case Nil
  then show ?case by simp
next
  case (Cons m ms)
  from Cons.prems obtain x where x: "map_begin m = Some x"
    and rec: "ComputeRollup_init ms (acc @ [(m, Some x)]) (min cur0 (fst x)) = Inr (iters, cur)"
    by (auto split: option.splits)
  from Cons.IH[OF rec] have ih: "iters = (acc @ [(m, Some x)]) @ map (\<lambda>m. (m, map_begin m)) ms"
    "cur \<le> min cur0 (fst x)" "\<forall>m\<in>set ms. \<forall>x. map_begin m = Some x \<longrightarrow> cur \<le> fst x" by simp_all
  from ih(2) have "cur \<le> cur0" "cur \<le> fst x" by simp_all
  with ih(1,3) x show ?case by auto
qed

lemma map_begin_iter_ok:
  assumes wf: "wf_map m" and b: "map_begin m = Some x" and c: "c \<le> fst x"
  shows "iter_ok m c (map_begin m)"
proof -
  from b obtain r where m: "m = x # r" by (auto simp: map_begin_def split: list.splits)
  from wf_keys_sorted[OF wf] m have "\<forall>z\<in>set m. \<not> fst z < fst x" by auto
  then show ?thesis using b m by (auto simp: iter_ok_def before_iter_def)
qed

lemma covered_ge_begin:
  assumes wf: "wf_map m" and b: "map_begin m = Some x" and cov: "covered m a"
  shows "fst x \<le> a"
proof -
  from b obtain r where m: "m = x # r" by (auto simp: map_begin_def split: list.splits)
  from cov obtain z where z: "z \<in> set m" "fst z \<le> a" unfolding covered_def EntryContains_def by blast
  from wf_keys_sorted[OF wf] m z(1) have "fst x \<le> fst z" by auto
  with z(2) show ?thesis by auto
qed

lemma ComputeRollup_result:
  assumes ne: "range_maps \<noteq> []"
    and maps: "\<forall>m\<in>set range_maps. wf_map m \<and> m \<noteq> [] \<and> (\<forall>x\<in>set m. entry_end (snd x) \<noteq> UINTPTR_MAX)"
  shows "\<exists>calls. ComputeRollup range_maps fn pos = Inr calls \<and>
          (\<forall>(keys, cur, nxt)\<in>set calls. cur < nxt) \<and>
          sorted_wrt (\<lambda>(keys1, cur1, nxt1) (keys2, cur2, nxt2). nxt1 \<le> cur2) calls \<and>
          calls_union calls = {a. \<exists>m\<in>set range_maps. covered m a} \<and>
          (\<forall>(keys, cur, nxt)\<in>set calls. \<forall>a\<in>{cur..<nxt}.
              keys = keys_with_filename fn pos (map (\<lambda>m. key_at m a) range_maps))"
proof -
  from maps have "[] \<notin> set range_maps" by auto
  then obtain iters cur where init: "ComputeRollup_init range_maps [] UINTPTR_MAX = Inr (iters, cur)"
    using ComputeRollup_init_Inl[of range_maps "[]" UINTPTR_MAX]
    by (cases "ComputeRollup_init range_maps [] UINTPTR_MAX") auto
  from ComputeRollup_init_Inr[OF init]
  have iters: "iters = map (\<lambda>m. (m, map_begin m)) range_maps"
    and low: "\<And>m x. m \<in> set range_maps \<Longrightarrow> map_begin m = Some x \<Longrightarrow> cur \<le> fst x" by auto
  have beg: "\<exists>x. map_begin m = Some x" if "m \<in> set range_maps" for m
    using maps that by (cases m) (auto simp: map_begin_def)
  have cur_ne: "cur \<noteq> UINTPTR_MAX"
  proof
    assume top: "cur = UINTPTR_MAX"
    from ne obtain m where m: "m \<in> set range_maps" by (cases range_maps) auto
    from beg[OF m] obtain x where x: "map_begin m = Some x" by blast
    then have xm: "x \<in> set m" by (auto simp: map_begin_def split: list.splits)
    from maps m have "wf_map m" by simp
    from wf_nonempty[OF this xm] have "fst x < entry_end (snd x)" .
    moreover from low[OF m x] top have "fst x = UINTPTR_MAX"
      by (simp add: UINTPTR_MAX_def UINT64_MAX_minus1 word_order.extremum_unique)
    ultimately show False by (simp add: UINTPTR_MAX_def UINT64_MAX_minus1 word_order.extremum_strict)
  qed
  let ?calls = "ComputeRollup_loop fn pos cur iters"
  have run: "ComputeRollup range_maps fn pos = Inr ?calls"
    using ne init cur_ne by (simp add: ComputeRollup_def)
  have pre: "\<forall>(m, it)\<in>set iters. wf_map m \<and> iter_ok m cur it \<and> (\<forall>x\<in>set m. entry_end (snd x) \<noteq> UINTPTR_MAX)"
  proof (clarify, intro conjI)
    fix m it assume "(m, it) \<in> set iters"
    then have m: "m \<in> set range_maps" and it: "it = map_begin m" unfolding iters by auto
    from maps m show "wf_map m" "\<forall>x\<in>set m. entry_end (snd x) \<noteq> UINTPTR_MAX" by auto
    from beg[OF m] obtain x where x: "map_begin m = Some x" by blast
    from map_begin_iter_ok[OF \<open>wf_map m\<close> x low[OF m x]] show "iter_ok m cur it" unfolding it .
  qed
  have "{a. cur \<le> a \<and> (\<exists>(m, it)\<in>set iters. covered m a)} = {a. \<exists>m\<in>set range_maps. covered m a}"
  proof (rule set_eqI, clarsimp simp: iters, intro iffI)
    fix a assume "cur \<le> a \<and> (\<exists>m\<in>set range_maps. covered m a)"
    then show "\<exists>m\<in>set range_maps. covered m a" by simp
  next
    fix a assume "\<exists>m\<in>set range_maps. covered m a"
    then obtain m where m: "m \<in> set range_maps" "covered m a" by blast
    from beg[OF m(1)] obtain x where x: "map_begin m = Some x" by blast
    from maps m(1) have "wf_map m" by simp
    from covered_ge_begin[OF this x m(2)] low[OF m(1) x] have "cur \<le> a" by auto
    with m show "cur \<le> a \<and> (\<exists>m\<in>set range_maps. covered m a)" by blast
  qed
  with ComputeRollup_loop_union[OF pre, of fn pos]
  have un: "calls_union ?calls = {a. \<exists>m\<in>set range_maps. covered m a}" by simp
  from ComputeRollup_loop_order[of fn pos cur iters]
  have "\<forall>(keys, cur, nxt)\<in>set ?calls. cur < nxt"
    "sorted_wrt (\<lambda>(keys1, cur1, nxt1) (keys2, cur2, nxt2). nxt1 \<le> cur2) ?calls" by auto
  moreover have "\<forall>(keys, cur, nxt)\<in>set ?calls. \<forall>a\<in>{cur..<nxt}.
              keys = keys_with_filename fn pos (map (\<lambda>m. key_at m a) range_maps)"
  proof -
    from pre have "\<forall>(m, it)\<in>set iters. wf_map m \<and> iter_ok m cur it" by auto
    from ComputeRollup_loop_keys[OF this, of fn pos]
    show ?thesis unfolding iters by (simp add: comp_def)
  qed
  ultimately show ?thesis using run un by blast
qed

lemmas ComputeRollup_eval =
  ComputeRollup_def ComputeRollup_loop.simps map_begin_def UINTPTR_MAX_def UINT64_MAX_def
  RangeEnd_def iter_next_def Let_def

lemma reachable_example_M1:
  "reachable [(0, \<lparr>label = ''X'', entry_end = 10, other_start = UINT64_MAX\<rparr>),
              (20, \<lparr>label = ''Y'', entry_end = 30, other_start = UINT64_MAX\<rparr>)]"
proof -
  have a: "AddRange [] 0 10 ''X'' = Some [(0, \<lparr>label = ''X'', entry_end = 10, other_start = UINT64_MAX\<rparr>)]"
    by (simp add: RangeMap_eval)
  have b: "AddRange [(0, \<lparr>label = ''X'', entry_end = 10, other_start = UINT64_MAX\<rparr>)] 20 10 ''Y'' =
      Some [(0, \<lparr>label = ''X'', entry_end = 10, other_start = UINT64_MAX\<rparr>),
            (20, \<lparr>label = ''Y'', entry_end = 30, other_start = UINT64_MAX\<rparr>)]"
    by (simp add: RangeMap_eval)
  show ?thesis by (rule reachable_AddRange[OF reachable_AddRange[OF reachable_empty a] b])
qed

lemma reachable_example_M2:
  "reachable [(5, \<lparr>label = ''Z'', entry_end = 25, other_start = UINT64_MAX\<rparr>)]"
proof -
  have a: "AddRange [] 5 20 ''Z'' = Some [(5, \<lparr>label = ''Z'', entry_end = 25, other_start = UINT64_MAX\<rparr>)]"
    by (simp add: RangeMap_eval)
  show ?thesis by (rule reachable_AddRange[OF reachable_empty a])
qed

subsection \<open>The rollup tree\<close>

lemma CheckedAdd_Inr_iff:
  "(CheckedAdd accum v = Inr t) =
   (- (2 ^ 63) \<le> sint accum + v \<and> sint accum + v < 2 ^ 63 \<and> sint t = sint accum + v)"
proof (cases "- (2 ^ 63) \<le> sint accum + v \<and> sint accum + v < 2 ^ 63")
  case True
  define s where "s = sint accum + v"
  from True have "- (2 ^ 63) \<le> s" "s < 2 ^ 63" by (simp_all add: s_def)
  then have "sint (word_of_int s :: 64 word) = s"
    by (simp add: sint_sbintrunc' signed_take_bit_int_eq_self)
  moreover have "t = word_of_int (sint t)" by simp
  ultimately have "(word_of_int s = t) = (sint t = s)" by metis
  moreover have "CheckedAdd accum v = Inr (word_of_int s)"
    using True unfolding CheckedAdd_def Let_def s_def by (simp only: if_True simp_thms)
  ultimately show ?thesis using True unfolding s_def by (simp only: sum.inject simp_thms)
next
  case False
  then have "CheckedAdd accum v = Inl (Error ''integer overflow'')"
    unfolding CheckedAdd_def Let_def by (simp only: if_False)
  with False show ?thesis by auto
qed

lemma CheckedAdd_uint: "CheckedAdd a (uint (s :: 64 word)) = Inr t \<Longrightarrow> t = a + s"
  by (auto simp: CheckedAdd_def Let_def split: if_splits)

lemma AddInternal_spec:
  "AddInternal names i sz is_vm r = add_sizes_spec (drop i names) sz is_vm r"
proof (induction names i sz is_vm r rule: AddInternal.induct)
  case (1 names i sz is_vm r)
  define chk where "chk = (if is_vm then CheckedAdd (vm_total r) (uint sz)
            else CheckedAdd (file_total r) (uint sz))"
  show ?case
  proof (cases chk)
    case (Inl e)
    then show ?thesis
      by (subst AddInternal.simps, subst add_sizes_spec.simps) (simp add: chk_def)
  next
    case (Inr t)
    show ?thesis
    proof (cases "i < length names")
      case True
      then have d: "drop i names = names ! i # drop (i + 1) names"
        by (simp add: Cons_nth_drop_Suc)
      from "1.IH"[OF Inr[unfolded chk_def] refl refl True]
      have ih: "AddInternal names (Suc i) sz is_vm (child_or_new r (names ! i)) =
        add_sizes_spec (drop (Suc i) names) sz is_vm (child_or_new r (names ! i))" by simp
      show ?thesis
        by (subst AddInternal.simps, subst add_sizes_spec.simps)
           (simp add: Inr[unfolded chk_def] True d ih Let_def)
    next
      case False
      then show ?thesis
        by (subst AddInternal.simps, subst add_sizes_spec.simps)
           (simp add: Inr[unfolded chk_def] Let_def)
    qed
  qed
qed

lemma AddInternal_wrap_eq:
  "AddInternal names i sz is_vm r = Inr r' \<Longrightarrow> r' = AddInternal_wrap names i sz is_vm r"
proof (induction names i sz is_vm r arbitrary: r' rule: AddInternal.induct)
  case (1 names i sz is_vm r)
  define chk where "chk = (if is_vm then CheckedAdd (vm_total r) (uint sz)
            else CheckedAdd (file_total r) (uint sz))"
  from "1.prems" obtain t where t: "chk = Inr t"
    by (subst (asm) AddInternal.simps) (auto simp: chk_def split: sum.splits)
  have tot: "t = (if is_vm then vm_total r + sz else file_total r + sz)"
    using t CheckedAdd_uint by (auto simp: chk_def split: if_splits)
  show ?case
  proof (cases "i < length names")
    case True
    from "1.prems" obtain c where
      c: "AddInternal names (i + 1) sz is_vm (child_or_new r (names ! i)) = Inr c"
      and r': "r' = Rollup (if is_vm then t else vm_total r) (if is_vm then file_total r else t)
                 (fmupd (names ! i) c (children r))"
      by (subst (asm) AddInternal.simps)
         (auto simp: t[unfolded chk_def] True Let_def split: sum.splits)
    from "1.IH"[OF t[unfolded chk_def] refl refl True c]
    have "c = AddInternal_wrap names (i + 1) sz is_vm (child_or_new r (names ! i))" .
    with r' tot True show ?thesis by (subst AddInternal_wrap.simps) auto
  next
    case False
    from "1.prems" have "r' = Rollup (if is_vm then t else vm_total r) (if is_vm then file_total r else t)
                 (children r)"
      by (subst (asm) AddInternal.simps)
         (auto simp: t[unfolded chk_def] False Let_def split: sum.splits)
    with tot False show ?thesis by (subst AddInternal_wrap.simps) auto
  qed
qed

lemma AddInternal_wrap_totals:
  "vm_total (AddInternal_wrap names i sz is_vm r) = (if is_vm then vm_total r + sz else vm_total r)"
  "file_total (AddInternal_wrap names i sz is_vm r) = (if is_vm then file_total r else file_total r + sz)"
  by (subst AddInternal_wrap.simps, simp)+

lemma AddInternal_wrap_children:
  "children (AddInternal_wrap names i sz is_vm r) =
     (if i < length names
      then fmupd (names ! i) (AddInternal_wrap names (Suc i) sz is_vm (child_or_new r (names ! i)))
             (children r)
      else children r)"
  by (subst AddInternal_wrap.simps) simp

lemma child_or_new_wrap:
  "child_or_new (AddInternal_wrap names i sz is_vm r) nm =
     (if i < length names \<and> names ! i = nm
      then AddInternal_wrap names (Suc i) sz is_vm (child_or_new r nm)
      else child_or_new r nm)"
  by (simp add: child_or_new_def AddInternal_wrap_children)

lemma AddInternal_wrap_commute:
  "AddInternal_wrap n1 i s1 v1 (AddInternal_wrap n2 j s2 v2 r) =
   AddInternal_wrap n2 j s2 v2 (AddInternal_wrap n1 i s1 v1 r)"
proof (induction "length n1 - i" arbitrary: i j r)
  case 0
  then have i: "\<not> i < length n1" by simp
  show ?case
    by (rule rollup.expand)
       (simp add: AddInternal_wrap_totals AddInternal_wrap_children i child_or_new_wrap add.commute add.left_commute)
next
  case (Suc k)
  then have i: "i < length n1" and k: "k = length n1 - Suc i" by simp_all
  note ih = Suc.hyps(1)[OF k]
  show ?case
  proof (cases "j < length n2")
    case False
    then show ?thesis
      by (intro rollup.expand)
         (simp add: AddInternal_wrap_totals AddInternal_wrap_children i child_or_new_wrap add.commute add.left_commute)
  next
    case True
    show ?thesis
    proof (cases "n1 ! i = n2 ! j")
      case False
      then have "n2 ! j \<noteq> n1 ! i" by simp
      with False show ?thesis
        by (intro rollup.expand)
           (simp add: AddInternal_wrap_totals AddInternal_wrap_children i True child_or_new_wrap
              add.commute add.left_commute fmupd_reorder_neq)
    next
      case eq: True
      note sw = ih[of "Suc j" "child_or_new r (n2 ! j)"]
      show ?thesis
        by (intro rollup.expand)
           (simp add: AddInternal_wrap_totals AddInternal_wrap_children i True child_or_new_wrap
              add.commute add.left_commute eq sw)
    qed
  qed
qed

lemma AddSizes_all_fold:
  "AddSizes_all calls r = Inr r' \<Longrightarrow>
   r' = fold (\<lambda>(names, sz, is_vm). AddInternal_wrap names 1 sz is_vm) calls r"
proof (induction calls arbitrary: r)
  case Nil
  then show ?case by simp
next
  case (Cons call calls)
  obtain names sz is_vm where call: "call = (names, sz, is_vm)" by (cases call)
  from Cons.prems obtain r1 where r1: "AddSizes names sz is_vm r = Inr r1"
    and rest: "AddSizes_all calls r1 = Inr r'"
    by (auto simp: call split: sum.splits)
  from r1 have "r1 = AddInternal_wrap names 1 sz is_vm r"
    unfolding AddSizes_def by (rule AddInternal_wrap_eq)
  with Cons.IH[OF rest] show ?case by (simp add: call)
qed

lemma Subtract_lookup:
  "fmlookup (children (Subtract a b)) nm =
     (case fmlookup (children b) nm of
        None \<Rightarrow> fmlookup (children a) nm
      | Some b' \<Rightarrow> Some (Subtract (child_or_new a nm) b'))"
  by (cases b) (auto simp: Subtract_def fmlookup_dom_iff split: option.splits)

lemma Subtract_totals:
  "vm_total (Subtract a b) = vm_total a - vm_total b"
  "file_total (Subtract a b) = file_total a - file_total b"
  by (cases b, simp add: Subtract_def)+

lemma node_sum_iff:
  "node_sum a b c \<longleftrightarrow>
     vm_total a = vm_total b + vm_total c \<and> file_total a = file_total b + file_total c \<and>
     fmdom (children b) = fmdom (children a) \<and> fmdom (children c) = fmdom (children a) \<and>
     (\<forall>nm a'. fmlookup (children a) nm = Some a' \<longrightarrow>
        (\<exists>b' c'. fmlookup (children b) nm = Some b' \<and> fmlookup (children c) nm = Some c' \<and>
                 node_sum a' b' c'))"
proof (cases a)
  case (Rollup a_vm a_file a_children)
  have "fmpred (\<lambda>nm sum_of.
                      case (fmlookup (children b) nm, fmlookup (children c) nm) of
                        (Some b', Some c') \<Rightarrow> sum_of b' c'
                      | _ \<Rightarrow> False)
              (fmmap node_sum a_children) \<longleftrightarrow>
        (\<forall>nm a'. fmlookup a_children nm = Some a' \<longrightarrow>
        (\<exists>b' c'. fmlookup (children b) nm = Some b' \<and> fmlookup (children c) nm = Some c' \<and>
                 node_sum a' b' c'))"
  proof -
    have c: "(case (fmlookup (children b) nm, fmlookup (children c) nm) of
                (Some b', Some c') \<Rightarrow> node_sum a' b' c' | _ \<Rightarrow> False) \<longleftrightarrow>
             (\<exists>b' c'. fmlookup (children b) nm = Some b' \<and> fmlookup (children c) nm = Some c' \<and>
                 node_sum a' b' c')" for nm a'
      by (auto split: option.splits)
    have "fmpred (\<lambda>nm sum_of.
                      case (fmlookup (children b) nm, fmlookup (children c) nm) of
                        (Some b', Some c') \<Rightarrow> sum_of b' c'
                      | _ \<Rightarrow> False)
              (fmmap node_sum a_children) \<longleftrightarrow>
          fmpred (\<lambda>nm a'.
                      case (fmlookup (children b) nm, fmlookup (children c) nm) of
                        (Some b', Some c') \<Rightarrow> node_sum a' b' c'
                      | _ \<Rightarrow> False) a_children"
      by (rule fmpred_map)
    also have "\<dots> \<longleftrightarrow> (\<forall>nm a'. fmlookup a_children nm = Some a' \<longrightarrow>
        (\<exists>b' c'. fmlookup (children b) nm = Some b' \<and> fmlookup (children c) nm = Some c' \<and>
                 node_sum a' b' c'))"
      unfolding fmpred_iff c ..
    finally show ?thesis .
  qed
  then show ?thesis unfolding Rollup by (simp only: node_sum.simps rollup.sel)
qed

lemma node_sum_Subtract: "node_sum a b c \<Longrightarrow> Subtract a b = c"
proof (induction a arbitrary: b c)
  case (Rollup a_vm a_file a_children)
  let ?a = "Rollup a_vm a_file a_children"
  from Rollup.prems have
    tot: "vm_total ?a = vm_total b + vm_total c" "file_total ?a = file_total b + file_total c"
    and db: "fmdom (children b) = fmdom a_children" and dc: "fmdom (children c) = fmdom a_children"
    and ch: "\<And>nm a'. fmlookup a_children nm = Some a' \<Longrightarrow>
        \<exists>b' c'. fmlookup (children b) nm = Some b' \<and> fmlookup (children c) nm = Some c' \<and>
                 node_sum a' b' c'"
    using node_sum_iff[of ?a b c] by auto
  have "children (Subtract ?a b) = children c"
  proof (rule fmap_ext)
    fix nm
    show "fmlookup (children (Subtract ?a b)) nm = fmlookup (children c) nm"
    proof (cases "fmlookup a_children nm")
      case None
      then have "nm |\<notin>| fmdom a_children" by (simp add: fmdom_notI)
      with db dc have "fmlookup (children b) nm = None" "fmlookup (children c) nm = None"
        by (metis fmdom_notD)+
      with None show ?thesis by (simp add: Subtract_lookup)
    next
      case (Some a')
      from ch[OF Some] obtain b' c' where
        b': "fmlookup (children b) nm = Some b'" and c': "fmlookup (children c) nm = Some c'"
        and s: "node_sum a' b' c'" by blast
      from Some have "a' \<in> fmran' a_children" by (rule fmran'I)
      from Rollup.IH[OF this s] have "Subtract a' b' = c'" .
      with Some b' c' show ?thesis by (simp add: Subtract_lookup child_or_new_def)
    qed
  qed
  with tot show ?case by (intro rollup.expand) (simp add: Subtract_totals)
qed

lemmas Rollup_eval =
  AddSizes_def AddInternal.simps add_sizes_spec.simps CheckedAdd_def new_Rollup_def
  child_or_new_def Let_def

subsection \<open>The collapse of rows\<close>

lemmas ComputeRows_eval =
  ComputeRows_rows_def ComputeRows_clear_def ComputeRows_filter.simps collapse_rank_def rank_def
  INT64_MAX_def CheckedAdd_def others_label_def new_Rollup_def Let_def





section \<open>The claims\<close>

subsection \<open>Claims about RangeMap\<close>

text \<open>
  C1.  In every range map built from the empty map by \<^verbatim>\<open>AddRange\<close>, \<^verbatim>\<open>AddDualRange\<close> and
  \<^verbatim>\<open>AddRangeWithTranslation\<close>, any two entries adjacent in key order satisfy
  \<open>e\<^sub>i.end \<le> e\<^sub>i\<^sub>+\<^sub>1.start\<close>; each of the three operations returns when called on such a
  map, and the maps it returns satisfy the same invariant.
\<close>

theorem C1_ranges_never_overlap:
  assumes "reachable m"
  shows "(\<forall>i. Suc i < length m \<longrightarrow> entry_end (snd (m ! i)) \<le> fst (m ! Suc i)) \<and>
         (\<exists>m'. AddRange m addr sz val = Some m' \<and> NonOverlapping m') \<and>
         (\<exists>m'. AddDualRange m addr sz otheraddr val = Some m' \<and> NonOverlapping m') \<and>
         (reachable translator \<and> reachable other \<longrightarrow>
            (\<exists>m' other'. AddRangeWithTranslation m addr sz val translator other = Some (m', other') \<and>
               NonOverlapping m' \<and> NonOverlapping other'))"
proof -
  note wf = reachable_wf[OF assms]
  have "\<forall>i. Suc i < length m \<longrightarrow> entry_end (snd (m ! i)) \<le> fst (m ! Suc i)"
    using NonOverlapping_nth[OF wf_NonOverlapping[OF wf]] by blast
  moreover have "\<exists>m'. AddRange m addr sz val = Some m' \<and> NonOverlapping m'"
    using AddRange_post[OF wf, of addr sz val] wf_NonOverlapping by (auto simp: add_post_def)
  moreover have "\<exists>m'. AddDualRange m addr sz otheraddr val = Some m' \<and> NonOverlapping m'"
    using AddDualRange_post[OF wf, of addr sz otheraddr val] wf_NonOverlapping
    by (auto simp: add_post_def)
  moreover have "\<exists>m' other'. AddRangeWithTranslation m addr sz val translator other = Some (m', other') \<and>
               NonOverlapping m' \<and> NonOverlapping other'" if "reachable other"
    using AddRangeWithTranslation_wf[OF wf reachable_wf[OF that], of addr sz val translator]
      wf_NonOverlapping by blast
  ultimately show ?thesis by blast
qed

theorem C1_ranges_never_overlap_witness:
  "reachable [(0, \<lparr>label = ''A'', entry_end = 100, other_start = UINT64_MAX\<rparr>)] \<and>
   (\<exists>m'. AddRange [(0, \<lparr>label = ''A'', entry_end = 100, other_start = UINT64_MAX\<rparr>)] 50 100 ''B''
            = Some m' \<and> NonOverlapping m') \<and>
   (\<exists>m' other'. AddRangeWithTranslation
        [(0, \<lparr>label = ''A'', entry_end = 100, other_start = UINT64_MAX\<rparr>)] 50 100 ''B'' [] []
          = Some (m', other') \<and> NonOverlapping m' \<and> NonOverlapping other')"
  using C1_ranges_never_overlap[OF reachable_example_A, of 50 100 "''B''" 0 "[]" "[]"]
    reachable_example_A reachable_empty
  by simp



subsection \<open>Claims about RangeSink\<close>

text \<open>
  C5.  \<^verbatim>\<open>AddFileRange\<close> on a sink without a translator: the loop over the outputs has one
  branch, taken when a translator is present, and no other.  Called on the sink of the
  base map (no translator, one output with empty maps) for the range \<open>[0, 64)\<close> it
  returns the sink unchanged, the File map still empty, whereas \<^verbatim>\<open>RangeSink::AddRange\<close> on
  the same sink and the same file range adds the entry.
\<close>

theorem C5_AddFileRange_without_translator:
  "AddFileRange \<lparr>sink_translator = None, sink_outputs = [(\<lparr>vm_map = [], file_map = []\<rparr>, [])]\<rparr>
      ''[ELF Headers]'' 0 64 =
     Some \<lparr>sink_translator = None, sink_outputs = [(\<lparr>vm_map = [], file_map = []\<rparr>, [])]\<rparr> \<and>
   Sink_AddRange \<lparr>sink_translator = None, sink_outputs = [(\<lparr>vm_map = [], file_map = []\<rparr>, [])]\<rparr>
      ''[ELF Headers]'' 0 0 0 64 =
     Some \<lparr>sink_translator = None, sink_outputs =
       [(\<lparr>vm_map = [],
          file_map = [(0, \<lparr>label = ''[ELF Headers]'', entry_end = 64, other_start = UINT64_MAX\<rparr>)]\<rparr>,
         [])]\<rparr>"
  by (simp add: AddFileRange_def Sink_AddRange_def Munge_def RangeMap_eval)

subsection \<open>Claims about RangeMap::ComputeRollup\<close>

text \<open>
  C3, as the code has it.  Over a non-empty vector of maps built by the operations, each
  with at least one entry and none with an entry ending at \<^verbatim>\<open>UINTPTR_MAX\<close>,
  \<^verbatim>\<open>ComputeRollup\<close> returns; the intervals \<open>[cur, next)\<close> it passes to the callback are
  non-empty, ascending and pairwise disjoint; their union is the union of the maps'
  domains; an interval is passed only where some map has an entry; and at every address
  of the interval the keys passed are the labels of the entries containing the address,
  \<open>[None]\<close> for a map without one, with the file name at its position.
\<close>

theorem C3_rollup_intervals:
  assumes "range_maps \<noteq> []"
    and "\<forall>m\<in>set range_maps. reachable m \<and> m \<noteq> [] \<and> (\<forall>x\<in>set m. entry_end (snd x) \<noteq> UINTPTR_MAX)"
  shows "\<exists>calls. ComputeRollup range_maps fname fpos = Inr calls \<and>
          (\<forall>(keys, cur, nxt)\<in>set calls. cur < nxt) \<and>
          sorted_wrt (\<lambda>(keys1, cur1, nxt1) (keys2, cur2, nxt2).
                        nxt1 \<le> cur2 \<and> {cur1..<nxt1} \<inter> {cur2..<nxt2} = {}) calls \<and>
          calls_union calls = (\<Union>m\<in>set range_maps. {a. covered m a}) \<and>
          (\<forall>(keys, cur, nxt)\<in>set calls. \<forall>a\<in>{cur..<nxt}.
              (\<exists>m\<in>set range_maps. FindContaining m a \<noteq> None) \<and>
              keys = keys_with_filename fname fpos (map (\<lambda>m. key_at m a) range_maps))"
proof -
  from assms(2) have wf: "\<forall>m\<in>set range_maps. wf_map m \<and> m \<noteq> [] \<and>
      (\<forall>x\<in>set m. entry_end (snd x) \<noteq> UINTPTR_MAX)"
    using reachable_wf by blast
  from ComputeRollup_result[OF assms(1) wf, of fname fpos] obtain calls where
    run: "ComputeRollup range_maps fname fpos = Inr calls" and
    pos: "\<forall>(keys, cur, nxt)\<in>set calls. cur < nxt" and
    srt: "sorted_wrt (\<lambda>(keys1, cur1, nxt1) (keys2, cur2, nxt2). nxt1 \<le> cur2) calls" and
    un: "calls_union calls = {a. \<exists>m\<in>set range_maps. covered m a}" and
    ks: "\<forall>(keys, cur, nxt)\<in>set calls. \<forall>a\<in>{cur..<nxt}.
              keys = keys_with_filename fname fpos (map (\<lambda>m. key_at m a) range_maps)" by blast
  have "sorted_wrt (\<lambda>(keys1, cur1, nxt1) (keys2, cur2, nxt2).
                        nxt1 \<le> cur2 \<and> {cur1..<nxt1} \<inter> {cur2..<nxt2} = {}) calls"
    by (rule sorted_wrt_mono_rel[OF _ srt]) auto
  moreover have "calls_union calls = (\<Union>m\<in>set range_maps. {a. covered m a})"
    using un by auto
  moreover have "\<forall>(keys, cur, nxt)\<in>set calls. \<forall>a\<in>{cur..<nxt}.
              (\<exists>m\<in>set range_maps. FindContaining m a \<noteq> None) \<and>
              keys = keys_with_filename fname fpos (map (\<lambda>m. key_at m a) range_maps)"
  proof (clarify, intro conjI)
    fix keys cur nxt a assume c: "(keys, cur, nxt) \<in> set calls" and a: "a \<in> {cur..<nxt}"
    then have "a \<in> calls_union calls" unfolding calls_union_def by blast
    with un obtain m where m: "m \<in> set range_maps" "covered m a" by blast
    with wf have "FindContaining m a \<noteq> None" using FindContaining_None by blast
    with m(1) show "\<exists>m\<in>set range_maps. FindContaining m a \<noteq> None" by blast
    from ks c a show "keys = keys_with_filename fname fpos (map (\<lambda>m. key_at m a) range_maps)"
      by blast
  qed
  ultimately show ?thesis using run pos by blast
qed

theorem C3_rollup_intervals_witness:
  "ComputeRollup
     [[(0, \<lparr>label = ''X'', entry_end = 10, other_start = UINT64_MAX\<rparr>),
       (20, \<lparr>label = ''Y'', entry_end = 30, other_start = UINT64_MAX\<rparr>)],
      [(5, \<lparr>label = ''Z'', entry_end = 25, other_start = UINT64_MAX\<rparr>)]] ''a.out'' (- 1) =
   Inr [([''X'', ''[None]''], 0, 5), ([''X'', ''Z''], 5, 10), ([''[None]'', ''Z''], 10, 20),
        ([''Y'', ''Z''], 20, 25), ([''Y'', ''[None]''], 25, 30)] \<and>
   calls_union [([''X'', ''[None]''], 0, 5), ([''X'', ''Z''], 5, 10), ([''[None]'', ''Z''], 10, 20),
        ([''Y'', ''Z''], 20, 25), ([''Y'', ''[None]''], 25, 30)] =
   (\<Union>m\<in>set [[(0, \<lparr>label = ''X'', entry_end = 10, other_start = UINT64_MAX\<rparr>),
       (20, \<lparr>label = ''Y'', entry_end = 30, other_start = UINT64_MAX\<rparr>)],
      [(5, \<lparr>label = ''Z'', entry_end = 25, other_start = UINT64_MAX\<rparr>)]]. {a. covered m a})"
proof -
  let ?M1 = "[(0, \<lparr>label = ''X'', entry_end = 10, other_start = UINT64_MAX\<rparr>),
       (20, \<lparr>label = ''Y'', entry_end = 30, other_start = UINT64_MAX\<rparr>)]"
  let ?M2 = "[(5, \<lparr>label = ''Z'', entry_end = 25, other_start = UINT64_MAX\<rparr>)]"
  have ev: "ComputeRollup [?M1, ?M2] ''a.out'' (- 1) =
     Inr [([''X'', ''[None]''], 0, 5), ([''X'', ''Z''], 5, 10), ([''[None]'', ''Z''], 10, 20),
        ([''Y'', ''Z''], 20, 25), ([''Y'', ''[None]''], 25, 30)]"
    by (simp add: ComputeRollup_eval)
  have h1: "[?M1, ?M2] \<noteq> []" by simp
  have h2: "\<forall>m\<in>set [?M1, ?M2]. reachable m \<and> m \<noteq> [] \<and> (\<forall>x\<in>set m. entry_end (snd x) \<noteq> UINTPTR_MAX)"
    using reachable_example_M1 reachable_example_M2 by (simp add: UINTPTR_MAX_def UINT64_MAX_def)
  from C3_rollup_intervals[OF h1 h2, of "''a.out''" "- 1"] ev show ?thesis by auto
qed

text \<open>
  The claim as stated fails in three places.  A map with no entry makes the first loop
  dereference \<^verbatim>\<open>end()\<close>.  An entry ending at \<^verbatim>\<open>UINTPTR_MAX\<close>, which \<^verbatim>\<open>AddRange\<close> can
  build, is never passed on, because \<^verbatim>\<open>next_break == UINTPTR_MAX\<close> ends the loop.  And an
  interval on which the only map has an entry labelled \<open>[None]\<close> is passed on.
\<close>

theorem C3_rollup_intervals_counterexample:
  "ComputeRollup [[], [(0, \<lparr>label = ''A'', entry_end = 10, other_start = UINT64_MAX\<rparr>)]] ''a.out'' (- 1)
     = Inl InvalidIterator \<and>
   AddRange [] 0 UINT64_MAX ''A''
     = Some [(0, \<lparr>label = ''A'', entry_end = UINT64_MAX, other_start = UINT64_MAX\<rparr>)] \<and>
   EntryContains (0, \<lparr>label = ''A'', entry_end = UINT64_MAX, other_start = UINT64_MAX\<rparr>) 0 \<and>
   ComputeRollup [[(0, \<lparr>label = ''A'', entry_end = UINT64_MAX, other_start = UINT64_MAX\<rparr>)]] ''a.out'' (- 1)
     = Inr [] \<and>
   ComputeRollup [[(0, \<lparr>label = ''[None]'', entry_end = 10, other_start = UINT64_MAX\<rparr>)]] ''a.out'' (- 1)
     = Inr [([''[None]''], 0, 10)]"
  by (simp add: ComputeRollup_eval RangeMap_eval)

text \<open>
  C10.  \<^verbatim>\<open>ComputeRollup\<close> reads the first entry of every map: it reaches the dereference of
  \<^verbatim>\<open>end()\<close> exactly when one of the maps has no entry, so with every map non-empty that
  branch is not reached.
\<close>

theorem C10_every_map_needs_an_entry:
  "(ComputeRollup range_maps fname fpos = Inl InvalidIterator) =
   (\<exists>m\<in>set range_maps. m = [])"
proof (cases "range_maps = []")
  case True
  then show ?thesis by (simp add: ComputeRollup_def)
next
  case False
  show ?thesis
  proof (cases "ComputeRollup_init range_maps [] UINTPTR_MAX")
    case (Inl e)
    then have "e = InvalidIterator" "[] \<in> set range_maps"
      using ComputeRollup_init_Inl[of range_maps "[]" UINTPTR_MAX e] by simp_all
    with Inl False show ?thesis by (auto simp: ComputeRollup_def)
  next
    case (Inr r)
    then have "[] \<notin> set range_maps"
      using ComputeRollup_init_Inl[of range_maps "[]" UINTPTR_MAX InvalidIterator] by auto
    with Inr False show ?thesis by (auto simp: ComputeRollup_def split: prod.splits)
  qed
qed

theorem C10_every_map_needs_an_entry_witness:
  "ComputeRollup [[(0, \<lparr>label = ''A'', entry_end = 10, other_start = UINT64_MAX\<rparr>)], []] ''a.out'' (- 1)
     = Inl InvalidIterator \<and>
   ComputeRollup [[(0, \<lparr>label = ''A'', entry_end = 10, other_start = UINT64_MAX\<rparr>)]] ''a.out'' (- 1)
     \<noteq> Inl InvalidIterator"
  using C10_every_map_needs_an_entry[of
      "[[(0, \<lparr>label = ''A'', entry_end = 10, other_start = UINT64_MAX\<rparr>)], []]" "''a.out''" "- 1"]
    C10_every_map_needs_an_entry[of
      "[[(0, \<lparr>label = ''A'', entry_end = 10, other_start = UINT64_MAX\<rparr>)]]" "''a.out''" "- 1"]
  by simp

subsection \<open>Claims about Rollup\<close>

text \<open>
  C4, as the code has it.  \<^verbatim>\<open>AddSizes\<close> starts \<^verbatim>\<open>AddInternal\<close> at index 1, so the walk of the
  specification (add at the node, descend into the child keyed by the first label,
  creating it if absent, continue with the remaining labels) is done for the labels
  after the first: \<open>labels[0]\<close>, the label of the base map, gets no node.  Every addition
  is checked: \<^verbatim>\<open>CheckedAdd\<close> returns a total exactly when the exact sum fits a signed
  64-bit integer, and the total is that sum.
\<close>

theorem C4_add_sizes_walk:
  "AddSizes labels sz is_vm r = add_sizes_spec (drop 1 labels) sz is_vm r \<and>
   (CheckedAdd accum v = Inr t) =
     (- (2 ^ 63) \<le> sint accum + v \<and> sint accum + v < 2 ^ 63 \<and> sint t = sint accum + v)"
  using AddInternal_spec[of labels 1 sz is_vm r] CheckedAdd_Inr_iff[of accum v t]
  by (simp add: AddSizes_def)

theorem C4_add_sizes_walk_witness:
  "AddSizes [''LOAD [RX]'', ''.text'', ''main''] 16 True new_Rollup =
     add_sizes_spec [''.text'', ''main''] 16 True new_Rollup \<and>
   add_sizes_spec [''.text'', ''main''] 16 True new_Rollup =
     Inr (Rollup 16 0 (fmupd ''.text'' (Rollup 16 0 (fmupd ''main'' (Rollup 16 0 fmempty) fmempty)) fmempty))"
proof -
  have "add_sizes_spec [''.text'', ''main''] 16 True new_Rollup =
     Inr (Rollup 16 0 (fmupd ''.text'' (Rollup 16 0 (fmupd ''main'' (Rollup 16 0 fmempty) fmempty)) fmempty))"
    by (simp add: Rollup_eval)
  with C4_add_sizes_walk[of "[''LOAD [RX]'', ''.text'', ''main'']" 16 True new_Rollup 0 0 0]
  show ?thesis by simp
qed

text \<open>
  The claim as stated, with the walk starting at \<open>labels[0]\<close>, fails: for the labels
  \<open>[seg, sym]\<close> the root gets the child \<open>sym\<close> and no child \<open>seg\<close>.
\<close>

theorem C4_add_sizes_walk_counterexample:
  "AddSizes [''seg'', ''sym''] 5 True new_Rollup =
     Inr (Rollup 5 0 (fmupd ''sym'' (Rollup 5 0 fmempty) fmempty)) \<and>
   fmlookup (children (Rollup 5 0 (fmupd ''sym'' (Rollup 5 0 fmempty) fmempty))) ''seg'' = None \<and>
   add_sizes_spec [''seg'', ''sym''] 5 True new_Rollup =
     Inr (Rollup 5 0 (fmupd ''seg'' (Rollup 5 0 (fmupd ''sym'' (Rollup 5 0 fmempty) fmempty)) fmempty))"
  by (simp add: Rollup_eval)

text \<open>
  C7.  The subtract law: when \<open>a\<close> is the node-wise sum of \<open>b\<close> and \<open>c\<close> (the three have
  the same children at every node, and every total of \<open>a\<close> is the sum of those of \<open>b\<close>
  and \<open>c\<close>), \<^verbatim>\<open>a.Subtract(b)\<close> leaves \<open>c\<close>: the same children and the same totals at every
  node.
\<close>

theorem C7_subtract_law:
  assumes "node_sum a b c"
  shows "Subtract a b = c"
  using assms by (rule node_sum_Subtract)

theorem C7_subtract_law_witness:
  "node_sum (Rollup 10 7 (fmupd ''.text'' (Rollup 3 2 fmempty) fmempty))
            (Rollup 4 4 (fmupd ''.text'' (Rollup 1 1 fmempty) fmempty))
            (Rollup 6 3 (fmupd ''.text'' (Rollup 2 1 fmempty) fmempty)) \<and>
   Subtract (Rollup 10 7 (fmupd ''.text'' (Rollup 3 2 fmempty) fmempty))
            (Rollup 4 4 (fmupd ''.text'' (Rollup 1 1 fmempty) fmempty)) =
     Rollup 6 3 (fmupd ''.text'' (Rollup 2 1 fmempty) fmempty)"
proof -
  have h: "node_sum (Rollup 10 7 (fmupd ''.text'' (Rollup 3 2 fmempty) fmempty))
            (Rollup 4 4 (fmupd ''.text'' (Rollup 1 1 fmempty) fmempty))
            (Rollup 6 3 (fmupd ''.text'' (Rollup 2 1 fmempty) fmempty))"
    by (simp add: fmpred_iff)
  from C7_subtract_law[OF h] h show ?thesis by simp
qed

text \<open>
  C8.  \<^verbatim>\<open>AddSizes\<close> calls commute: when a sequence of calls and a permutation of it are
  both applied to the same rollup (the empty one in particular) and neither raises the
  overflow error, the two resulting trees are equal.
\<close>

theorem C8_add_sizes_commute:
  assumes "mset calls = mset calls'"
    and "AddSizes_all calls r0 = Inr r"
    and "AddSizes_all calls' r0 = Inr r'"
  shows "r = r'"
proof -
  let ?f = "\<lambda>(names, sz, is_vm). AddInternal_wrap names 1 sz is_vm"
  have "?f x \<circ> ?f y = ?f y \<circ> ?f x" for x y
    by (cases x, cases y) (simp add: fun_eq_iff AddInternal_wrap_commute)
  then have "fold ?f calls = fold ?f calls'"
    by (intro fold_multiset_equiv assms(1))
  with AddSizes_all_fold[OF assms(2)] AddSizes_all_fold[OF assms(3)] show ?thesis by simp
qed

theorem C8_add_sizes_commute_witness:
  "mset [([''seg'', ''a''], 3, True), ([''seg'', ''b''], 4, False), ([''seg'', ''a'', ''x''], 5, True)] =
   mset [([''seg'', ''a'', ''x''], 5 :: uint64, True), ([''seg'', ''a''], 3, True), ([''seg'', ''b''], 4, False)] \<and>
   AddSizes_all [([''seg'', ''a''], 3, True), ([''seg'', ''b''], 4, False), ([''seg'', ''a'', ''x''], 5, True)]
     new_Rollup =
   Inr (Rollup 8 4 (fmupd ''a'' (Rollup 8 0 (fmupd ''x'' (Rollup 5 0 fmempty) fmempty))
                     (fmupd ''b'' (Rollup 0 4 fmempty) fmempty))) \<and>
   AddSizes_all [([''seg'', ''a'', ''x''], 5, True), ([''seg'', ''a''], 3, True), ([''seg'', ''b''], 4, False)]
     new_Rollup =
   Inr (Rollup 8 4 (fmupd ''a'' (Rollup 8 0 (fmupd ''x'' (Rollup 5 0 fmempty) fmempty))
                     (fmupd ''b'' (Rollup 0 4 fmempty) fmempty)))"
proof -
  let ?c1 = "[([''seg'', ''a''], 3 :: uint64, True), ([''seg'', ''b''], 4, False), ([''seg'', ''a'', ''x''], 5, True)]"
  let ?c2 = "[([''seg'', ''a'', ''x''], 5 :: uint64, True), ([''seg'', ''a''], 3, True), ([''seg'', ''b''], 4, False)]"
  let ?r = "Rollup 8 4 (fmupd ''a'' (Rollup 8 0 (fmupd ''x'' (Rollup 5 0 fmempty) fmempty))
                     (fmupd ''b'' (Rollup 0 4 fmempty) fmempty))"
  have m: "mset ?c1 = mset ?c2" by simp
  have a: "AddSizes_all ?c1 new_Rollup = Inr ?r"
    by (simp add: Rollup_eval fmupd_reorder_neq)
  obtain r' where b: "AddSizes_all ?c2 new_Rollup = Inr r'"
    by (simp add: Rollup_eval)
  from C8_add_sizes_commute[OF m a b] a b m show ?thesis by simp
qed

subsection \<open>Claims about the collapse into [Other]\<close>




subsection \<open>Claims about the options\<close>

text \<open>
  C9.  With \<^verbatim>\<open>max_rows_per_level\<close> set to 0, as \<^verbatim>\<open>-n 0\<close> does, and a file name given,
  \<^verbatim>\<open>BloatyDoMain\<close> throws \<^verbatim>\<open>max_rows_per_level must be at least 1\<close> before anything is
  scanned, whatever the scan would do.  Nor would the limit 0 leave the rows alone
  without that check: in \<^verbatim>\<open>ComputeRows\<close> the test \<^verbatim>\<open>i >= 0\<close> on a \<^verbatim>\<open>size_t\<close> holds always, every
  row is moved into \<open>[Other]\<close>, and the next \<^verbatim>\<open>child_rows[i]\<close> is outside the vector.
\<close>

theorem C9_zero_rows_is_rejected:
  "BloatyDoMain
     (set_max_rows_per_level 0
        \<lparr>filename = [''a.out''], base_filename = [], data_source = [''sections''],
         max_rows_per_level = 20, sort_by = SORTBY_BOTH, verbose_level = 0\<rparr>) scan =
   Inl (Error ''max_rows_per_level must be at least 1'') \<and>
   ComputeRows_rows
     (set_max_rows_per_level 0
        \<lparr>filename = [''a.out''], base_filename = [], data_source = [''sections''],
         max_rows_per_level = 20, sort_by = SORTBY_BOTH, verbose_level = 0\<rparr>) True ''TOTAL'' None
     [\<lparr>name = ''.text'', vmsize = 100, filesize = 100\<rparr>,
      \<lparr>name = ''.data'', vmsize = 90, filesize = 90\<rparr>] =
   Inl IndexOutOfBounds"
  by (simp add: BloatyDoMain_def set_max_rows_per_level_def ComputeRows_eval)


end
